theory Spec2Isabelle
  imports Main "HOL-Library.Sublist" "HOL-Library.AList" "HOL-Library.Multiset"
begin

section \<open>Strings\<close>

text \<open>
  A JavaScript string is modelled as the list of the bytes of its UTF-8 encoding. The
  program only splits on, searches for and compares against ASCII text, and an ASCII byte
  never occurs inside the encoding of another character, so these operations agree with
  the ones on UTF-16 code units.
\<close>

text \<open>\<^verbatim>\<open>s.split(c)\<close> for a separator of one character: never the empty array.\<close>

fun split_js :: "char \<Rightarrow> string \<Rightarrow> string list" where
  "split_js c [] = [[]]"
| "split_js c (x # xs) =
     (if x = c then [] # split_js c xs
      else (case split_js c xs of [] \<Rightarrow> [[x]] | w # ws \<Rightarrow> (x # w) # ws))"

text \<open>\<^verbatim>\<open>xs.join(sep)\<close> on an array of strings.\<close>

fun join_js :: "string \<Rightarrow> string list \<Rightarrow> string" where
  "join_js sep [] = []"
| "join_js sep [x] = x"
| "join_js sep (x # y # ys) = x @ sep @ join_js sep (y # ys)"

text \<open>\<^verbatim>\<open>s.includes(v)\<close>: \<open>v\<close> occurs in \<open>s\<close> as a contiguous run.\<close>

definition includes_js :: "string \<Rightarrow> string \<Rightarrow> bool" where
  "includes_js s v = sublist v s"

text \<open>
  \<^verbatim>\<open>s.toLowerCase()\<close> on the ASCII letters. The program compares the result with the
  words \<open>multiple\<close> and \<open>anon\<close> only, and no character outside ASCII has a lower case
  form made of the letters of these words, so bytes above 127 are left alone.
\<close>

definition lower_char :: "char \<Rightarrow> char" where
  "lower_char c =
     (if 65 \<le> (of_char c :: nat) \<and> (of_char c :: nat) \<le> 90
      then char_of ((of_char c :: nat) + 32) else c)"

definition toLowerCase :: "string \<Rightarrow> string" where
  "toLowerCase s = map lower_char s"

text \<open>\<^verbatim>\<open>s.replace(pat, rep)\<close> with a string pattern: the first occurrence only.\<close>

fun replace_js :: "string \<Rightarrow> string \<Rightarrow> string \<Rightarrow> string" where
  "replace_js pat rep [] = (if pat = [] then rep else [])"
| "replace_js pat rep (x # xs) =
     (if prefix pat (x # xs) then rep @ drop (length pat) (x # xs)
      else x # replace_js pat rep xs)"

text \<open>\<^verbatim>\<open>xs.indexOf(v)\<close>: the first position of \<open>v\<close>, or \<open>-1\<close>.\<close>

fun indexOf :: "string list \<Rightarrow> string \<Rightarrow> int" where
  "indexOf [] v = -1"
| "indexOf (x # xs) v =
     (if x = v then 0 else (let i = indexOf xs v in if i = -1 then -1 else i + 1))"

text \<open>\<^verbatim>\<open>xs.splice(i, 1)\<close> for \<open>0 \<le> i\<close>: the array without its element at \<open>i\<close>.\<close>

definition splice1 :: "int \<Rightarrow> 'a list \<Rightarrow> 'a list" where
  "splice1 i xs = take (nat i) xs @ drop (Suc (nat i)) xs"

text \<open>The decimal numeral of a number, as a template literal prints it.\<close>

fun decimal :: "nat \<Rightarrow> string" where
  "decimal n =
     (if n < 10 then [char_of (48 + n)]
      else decimal (n div 10) @ [char_of (48 + n mod 10)])"

declare decimal.simps [simp del]

section \<open>Blocks\<close>

text \<open>
  The elements of an actions block: a button with its label (\<^verbatim>\<open>text.text\<close>) and its
  \<^verbatim>\<open>value\<close>, the votes string, which every button of a poll has; a static select with
  its placeholder and its options (label and action code); any other element.
\<close>

datatype element =
    Button string string
  | StaticSelect string "(string \<times> string) list"
  | OtherElement

text \<open>
  The blocks of a message. \<open>Section t\<close> is a block whose \<^verbatim>\<open>text.text\<close> is \<open>t\<close>;
  \<open>Context ts\<close> holds the texts of its elements; \<open>OtherBlock\<close> is any block that is
  neither an actions block nor a divider and has no \<^verbatim>\<open>text\<close> (an image, a file,
  a section made of fields only).
\<close>

datatype block =
    Section string
  | Context "string list"
  | Actions "element list"
  | Divider
  | OtherBlock

text \<open>Reading a property of \<^verbatim>\<open>undefined\<close> throws a TypeError.\<close>

datatype error = TypeError

text \<open>\<^verbatim>\<open>((this.message[i] as SectionBlock).text as MrkdwnElement).text\<close>\<close>

definition textOf :: "block list \<Rightarrow> nat \<Rightarrow> error + string" where
  "textOf msg i =
     (if i < length msg then (case msg ! i of Section t \<Rightarrow> Inr t | _ \<Rightarrow> Inl TypeError)
      else Inl TypeError)"

section \<open>The poll\<close>

record poll =
  message :: "block list"
  multiple :: bool
  anonymous :: bool
  isLocked :: bool

text \<open>\<^verbatim>\<open>getDividerId\<close>: the loop runs from the last block down; \<open>k\<close> is \<open>i + 1\<close>.\<close>

fun getDividerId_from :: "block list \<Rightarrow> nat \<Rightarrow> int" where
  "getDividerId_from msg 0 = -1"
| "getDividerId_from msg (Suc i) =
     (if msg ! i = Divider then int i else getDividerId_from msg i)"

definition getDividerId :: "block list \<Rightarrow> int" where
  "getDividerId msg = getDividerId_from msg (length msg)"

definition getTitleFromMsg :: "block list \<Rightarrow> error + string" where
  "getTitleFromMsg msg = textOf msg 0"

definition checkIfMsgContains :: "block list \<Rightarrow> string \<Rightarrow> error + bool" where
  "checkIfMsgContains msg v =
     (case getTitleFromMsg msg of Inl e \<Rightarrow> Inl e | Inr t \<Rightarrow> Inr (includes_js t v))"

text \<open>The constructor \<^verbatim>\<open>new Poll(message)\<close>.\<close>

definition Poll_new :: "block list \<Rightarrow> error + poll" where
  "Poll_new msg =
     (case checkIfMsgContains msg ''(Multiple Answers)'' of Inl e \<Rightarrow> Inl e
      | Inr m \<Rightarrow>
     (case checkIfMsgContains msg ''(Anonymous)'' of Inl e \<Rightarrow> Inl e
      | Inr a \<Rightarrow>
        if int (length msg) - 1 \<noteq> getDividerId msg
        then (case textOf msg (nat (getDividerId msg + 1)) of Inl e \<Rightarrow> Inl e
              | Inr t \<Rightarrow>
                Inr \<lparr>message = msg, multiple = m, anonymous = a, isLocked = (t = '':lock:'')\<rparr>)
        else Inr \<lparr>message = msg, multiple = m, anonymous = a, isLocked = False\<rparr>))"

definition getBlocks :: "poll \<Rightarrow> block list" where
  "getBlocks p = message p"

definition getLockedStatus :: "poll \<Rightarrow> bool" where
  "getLockedStatus p = isLocked p"

section \<open>Walking the buttons\<close>

text \<open>
  \<^verbatim>\<open>processButtons(loopEnd, buttonCallback)\<close>. A callback reads the label and the value of
  a button, may assign the value and variables it captured (the state \<open>'s\<close>), and returns
  whether to leave the loop over the elements of the current actions block. The loop over
  the blocks goes on with the next block either way.
\<close>

type_synonym 's buttonCallback = "'s \<Rightarrow> string \<Rightarrow> string \<Rightarrow> string \<times> 's \<times> bool"

fun processElements :: "'s buttonCallback \<Rightarrow> element list \<Rightarrow> 's \<Rightarrow> element list \<times> 's" where
  "processElements cb [] s = ([], s)"
| "processElements cb (Button l v # es) s =
     (case cb s l v of (v', s', brk) \<Rightarrow>
        if brk then (Button l v' # es, s')
        else (case processElements cb es s' of (es', s'') \<Rightarrow> (Button l v' # es', s'')))"
| "processElements cb (e # es) s =
     (case processElements cb es s of (es', s') \<Rightarrow> (e # es', s'))"

fun processBlocks :: "'s buttonCallback \<Rightarrow> block list \<Rightarrow> 's \<Rightarrow> block list \<times> 's" where
  "processBlocks cb [] s = ([], s)"
| "processBlocks cb (Actions es # bs) s =
     (case processElements cb es s of (es', s') \<Rightarrow>
        (case processBlocks cb bs s' of (bs', s'') \<Rightarrow> (Actions es' # bs', s'')))"
| "processBlocks cb (b # bs) s =
     (case processBlocks cb bs s of (bs', s') \<Rightarrow> (b # bs', s'))"

text \<open>The blocks at the positions \<open>2 \<le> i < loopEnd\<close> are walked, the others are kept.\<close>

definition processButtons ::
  "int \<Rightarrow> 's buttonCallback \<Rightarrow> block list \<Rightarrow> 's \<Rightarrow> block list \<times> 's" where
  "processButtons loopEnd cb msg s =
     (case processBlocks cb (take (nat loopEnd - 2) (drop 2 msg)) s of
        (bs, s') \<Rightarrow> (take 2 msg @ bs @ drop (max 2 (nat loopEnd)) msg, s'))"

section \<open>Building blocks\<close>

text \<open>
  The class \<^verbatim>\<open>PollHelpers\<close> is not among the sources. Its builders of blocks are fixed by
  the way \<^verbatim>\<open>Poll\<close> reads their results back.
\<close>

text \<open>
  Modelled from the spec: \<^verbatim>\<open>PollHelpers.buildSectionBlock\<close>, missing from the sources. The
  title and the result lines are blocks whose \<^verbatim>\<open>text.text\<close> is the given text.
\<close>

definition buildSectionBlock :: "string \<Rightarrow> block" where
  "buildSectionBlock mrkdwnValue = Section mrkdwnValue"

text \<open>
  Modelled from the spec: \<^verbatim>\<open>PollHelpers.buildContextBlock\<close>, missing from the sources. The
  author context is a context block whose first element carries the text
  (\<^verbatim>\<open>getAuthor\<close> reads \<^verbatim>\<open>elements[0].text\<close>).
\<close>

definition buildContextBlock :: "string \<Rightarrow> block" where
  "buildContextBlock mrkdwnValue = Context [mrkdwnValue]"

text \<open>
  Modelled from the spec: \<^verbatim>\<open>PollHelpers.buildTextElem\<close>, missing from the sources: the
  text element of a label, of which the model keeps the text.
\<close>

definition buildTextElem :: "string \<Rightarrow> string" where
  "buildTextElem text = text"

text \<open>
  Modelled from the spec: \<^verbatim>\<open>PollHelpers.buildSelectOption\<close>, missing from the sources: an
  option of the control menu, with its label and its action code.
\<close>

definition buildSelectOption :: "string \<Rightarrow> string \<Rightarrow> string \<times> string" where
  "buildSelectOption text v = (buildTextElem text, v)"

section \<open>The tally\<close>

text \<open>
  The object \<^verbatim>\<open>votes\<close> of \<^verbatim>\<open>generateResults\<close> is an association list in the order in
  which its keys were created. Assigning to an existing key keeps its place. Assigning a
  string to the key \<open>__proto__\<close> of an object literal creates no property.
\<close>

type_synonym votesObject = "(string \<times> string) list"

definition votes_put :: "votesObject \<Rightarrow> string \<Rightarrow> string \<Rightarrow> votesObject" where
  "votes_put votes k v = (if k = ''__proto__'' then votes else AList.update k v votes)"

text \<open>
  \<^verbatim>\<open>for (const key in votes)\<close> visits the keys that are array indices (canonical numerals
  up to \<open>2^32 - 2\<close>) in ascending order first, then the other keys in the order of their
  creation.
\<close>

definition numval :: "string \<Rightarrow> int" where
  "numval s = fold (\<lambda>c n. 10 * n + ((of_char c :: int) - 48)) s 0"

definition isDigit :: "char \<Rightarrow> bool" where
  "isDigit c = (48 \<le> (of_char c :: nat) \<and> (of_char c :: nat) \<le> 57)"

definition isArrayIndex :: "string \<Rightarrow> bool" where
  "isArrayIndex s =
     (s = ''0'' \<or>
      (s \<noteq> [] \<and> hd s \<noteq> CHR ''0'' \<and> list_all isDigit s \<and> length s \<le> 10
        \<and> numval s \<le> 4294967294))"

definition ownKeys :: "votesObject \<Rightarrow> string list" where
  "ownKeys votes =
     sort_key numval (filter isArrayIndex (map fst votes))
       @ filter (\<lambda>k. \<not> isArrayIndex k) (map fst votes)"

text \<open>
  \<^verbatim>\<open>buildVoteTally\<close>; \<open>None\<close> is \<^verbatim>\<open>null\<close>. The key always comes from the loop over the
  keys of \<^verbatim>\<open>votes\<close>, so \<^verbatim>\<open>votes[key]\<close> is a string. The separator of the line
  is the character U+00BB between two spaces.
\<close>

definition guillemet :: string where
  "guillemet = [CHR '' '', CHR 0xC2, CHR 0xBB, CHR '' '']"

definition mention :: "string \<Rightarrow> string" where
  "mention k = ''<@'' @ k @ ''>''"

definition buildVoteTally :: "bool \<Rightarrow> bool \<Rightarrow> votesObject \<Rightarrow> string \<Rightarrow> block option" where
  "buildVoteTally anon overrideAnon votes key =
     (case map_of votes key of None \<Rightarrow> None
      | Some v \<Rightarrow>
        (let users = tl (split_js CHR '','' v) in
         if length users = 0 then None
         else
           (let names = (if \<not> anon \<or> overrideAnon
                         then join_js '','' (map mention users) else ''~HIDDEN~'')
            in Some (buildSectionBlock (''*'' @ decimal (length users) @ ''* '' @ key @ guillemet @ names)))))"

definition tallyCallback :: "votesObject buttonCallback" where
  "tallyCallback votes l v = (v, votes_put votes l v, False)"

definition generateResults :: "poll \<Rightarrow> bool \<Rightarrow> block list" where
  "generateResults p overrideAnon =
     (let dividerId = getDividerId (message p);
          votes = snd (processButtons dividerId tallyCallback (message p) []);
          sections = List.map_filter (buildVoteTally (anonymous p) overrideAnon votes) (ownKeys votes)
      in if isLocked p then buildSectionBlock '':lock:'' # sections else sections)"

definition generateVoteResults :: "poll \<Rightarrow> poll" where
  "generateVoteResults p =
     p\<lparr>message := take (nat (getDividerId (message p) + 1)) (message p) @ generateResults p False\<rparr>"

section \<open>Voting\<close>

definition voteCallback :: "bool \<Rightarrow> string \<Rightarrow> string \<Rightarrow> unit buttonCallback" where
  "voteCallback multi buttonText userId s l v =
     (let votes = split_js CHR '','' v; userIdIndex = indexOf votes userId;
          votes' = (if \<not> multi \<and> userIdIndex > -1 \<and> l \<noteq> buttonText then splice1 userIdIndex votes
                    else if l = buttonText \<and> userIdIndex = -1 then votes @ [userId]
                    else votes)
      in (join_js '','' votes', s, False))"

definition vote :: "poll \<Rightarrow> string \<Rightarrow> string \<Rightarrow> poll" where
  "vote p buttonText userId =
     (if isLocked p then p
      else generateVoteResults
        (p\<lparr>message := fst (processButtons (int (length (message p)))
             (voteCallback (multiple p) buttonText userId) (message p) ())\<rparr>))"

definition resetCallback :: "bool \<Rightarrow> string \<Rightarrow> unit buttonCallback" where
  "resetCallback multi userId s l v =
     (let votes = split_js CHR '','' v; userIdIndex = indexOf votes userId
      in if userIdIndex = -1 then (v, s, False)
         else (join_js '','' (splice1 userIdIndex votes), s, \<not> multi))"

definition resetVote :: "poll \<Rightarrow> string \<Rightarrow> poll" where
  "resetVote p userId =
     generateVoteResults
       (p\<lparr>message := fst (processButtons (int (length (message p)))
            (resetCallback (multiple p) userId) (message p) ())\<rparr>)"

section \<open>Locking\<close>

text \<open>
  \<^verbatim>\<open>xs.slice(start, end)\<close>: a negative index counts from the end of the array, and both
  indices are clamped to it.
\<close>

definition slice_js :: "int \<Rightarrow> int \<Rightarrow> 'a list \<Rightarrow> 'a list" where
  "slice_js start end xs =
     (let n = int (length xs);
          s = (if start < 0 then max (n + start) 0 else min start n);
          e = (if end < 0 then max (n + end) 0 else min end n)
      in take (nat (e - s)) (drop (nat s) xs))"

definition getDynamicSelect :: "poll \<Rightarrow> block list" where
  "getDynamicSelect p =
     [Actions
        [StaticSelect (buildTextElem ''Poll Options'')
           [buildSelectOption ''Reset your vote'' ''reset'',
            (if isLocked p then buildSelectOption '':unlock: Unlock poll'' ''unlock''
             else buildSelectOption '':lock: Lock poll'' ''lock''),
            buildSelectOption ''Move to bottom'' ''bottom'',
            buildSelectOption ''Delete poll'' ''delete'']]]"

definition lockPoll :: "poll \<Rightarrow> poll" where
  "lockPoll p =
     (let q = generateVoteResults (p\<lparr>isLocked := True\<rparr>);
          msg = message q
      in q\<lparr>message :=
            slice_js 0 (getDividerId msg - 1) msg @ getDynamicSelect q
              @ slice_js (getDividerId msg) (int (length msg)) msg\<rparr>)"

definition unlockpoll :: "poll \<Rightarrow> poll" where
  "unlockpoll p =
     (let q = p\<lparr>isLocked := False\<rparr>;
          msg = message q
      in q\<lparr>message :=
            slice_js 0 (getDividerId msg - 1) msg @ getDynamicSelect q @ [Divider]
              @ slice_js (getDividerId msg + 2) (int (length msg)) msg\<rparr>)"

section \<open>Handling a click\<close>

text \<open>
  \<^verbatim>\<open>Actions.onButtonAction\<close>, as far as the blocks go: the message is decoded into a fresh
  poll, the vote is applied, and the blocks of the poll are sent back. The reset of
  \<^verbatim>\<open>onResetSelected\<close> is refused for a locked poll.
\<close>

definition applyVote :: "block list \<Rightarrow> string \<Rightarrow> string \<Rightarrow> error + block list" where
  "applyVote blocks buttonText userId =
     (case Poll_new blocks of Inl e \<Rightarrow> Inl e
      | Inr p \<Rightarrow> Inr (getBlocks (vote p buttonText userId)))"

definition applyReset :: "block list \<Rightarrow> string \<Rightarrow> error + block list" where
  "applyReset blocks userId =
     (case Poll_new blocks of Inl e \<Rightarrow> Inl e
      | Inr p \<Rightarrow> if getLockedStatus p then Inr blocks
                  else Inr (getBlocks (resetVote p userId)))"

section \<open>Creating a poll\<close>

text \<open>
  Modelled from the spec: \<^verbatim>\<open>PollHelpers.appendIfMatching\<close>, missing from the sources. The
  marker is appended ``for each flag token present among token[0]/token[1]'', compared
  without regard to case; the earlier revision of \<^verbatim>\<open>slashCreate\<close> tests
  \<^verbatim>\<open>optionArray[0].toLowerCase() === "anon" || optionArray[1].toLowerCase() === "anon"\<close>
  in the same way. The caller passes an array of two tokens at least.
\<close>

definition appendIfMatching :: "string list \<Rightarrow> string \<Rightarrow> string \<Rightarrow> string" where
  "appendIfMatching optionArray keyword appendText =
     (if toLowerCase (optionArray ! 0) = keyword \<or> toLowerCase (optionArray ! 1) = keyword
      then appendText else [])"

text \<open>
  Modelled from the spec: the rewriting of a label inside \<^verbatim>\<open>PollHelpers.buildVoteOptions\<close>,
  missing from the sources: the first \<^verbatim>\<open>&amp;\<close> becomes \<^verbatim>\<open>+\<close>, then the first \<^verbatim>\<open>&lt;\<close>
  becomes \<^verbatim>\<open>greater than \<close>, then the first \<^verbatim>\<open>&gt;\<close> becomes \<^verbatim>\<open>less than \<close>, as the
  chain of \<^verbatim>\<open>replace\<close> calls of the earlier revision of \<^verbatim>\<open>slashCreate\<close> does.
\<close>

definition escapeLabel :: "string \<Rightarrow> string" where
  "escapeLabel s =
     replace_js ''&gt;'' ''less than ''
       (replace_js ''&lt;'' ''greater than '' (replace_js ''&amp;'' ''+'' s))"

text \<open>
  Modelled from the spec: one turn of the loop of \<^verbatim>\<open>PollHelpers.buildVoteOptions\<close>, missing
  from the sources. The earlier revision of \<^verbatim>\<open>slashCreate\<close> has the loop inline: a new
  actions block is opened when the index of the line is a multiple of five, and the button
  of the line, its votes string the placeholder of one space, is pushed to the last block.
\<close>

definition voteOptionStep :: "string list \<Rightarrow> nat \<Rightarrow> element list list \<Rightarrow> element list list" where
  "voteOptionStep parameters i actionBlocks =
     (let blocks = (if i mod 5 = 0 then actionBlocks @ [[]] else actionBlocks)
      in butlast blocks @ [last blocks @ [Button (buildTextElem (escapeLabel (parameters ! i))) '' '']])"

text \<open>
  Modelled from the spec: \<^verbatim>\<open>PollHelpers.buildVoteOptions\<close>, missing from the sources. The
  lines from \<open>start\<close> on become buttons in order, at most five to an actions block, one
  button to a label, each votes string the placeholder alone.
\<close>

definition buildVoteOptions :: "string list \<Rightarrow> nat \<Rightarrow> block list" where
  "buildVoteOptions parameters start =
     map Actions (fold (voteOptionStep parameters) [start ..< length parameters] [[]])"

text \<open>
  \<^verbatim>\<open>Poll.slashCreate(author, parameters)\<close>. \<^verbatim>\<open>parameters[0]\<close> of an empty array is
  \<^verbatim>\<open>undefined\<close>, and splitting it throws; a missing \<^verbatim>\<open>parameters[1]\<close> is printed as
  \<open>undefined\<close> when the markers are appended to it. The report to the error tracker does
  not touch the poll.
\<close>

definition controlMenu :: element where
  "controlMenu =
     StaticSelect (buildTextElem ''Poll Options'')
       [buildSelectOption ''Reset your vote'' ''reset'',
        buildSelectOption '':lock: Lock poll'' ''lock'',
        buildSelectOption ''Move to bottom'' ''bottom'',
        buildSelectOption ''Delete poll'' ''delete'']"

definition optionTokens :: "string \<Rightarrow> string list" where
  "optionTokens line0 =
     (let optionArray = split_js CHR '' '' line0
      in if length optionArray = 1 then optionArray @ ['' ''] else optionArray)"

text \<open>The test \<^verbatim>\<open>optionArray[0].toLowerCase() === "multiple" || ... === "anon"\<close>.\<close>

definition flagLine :: "string list \<Rightarrow> bool" where
  "flagLine optionArray =
     (toLowerCase (optionArray ! 0) = ''multiple'' \<or> toLowerCase (optionArray ! 0) = ''anon'')"

text \<open>\<^verbatim>\<open>parameters[1]\<close> as the string concatenation reads it.\<close>

definition secondLine :: "string list \<Rightarrow> string" where
  "secondLine parameters = (if 1 < length parameters then parameters ! 1 else ''undefined'')"

definition titleText :: "string list \<Rightarrow> string" where
  "titleText parameters =
     (let optionArray = optionTokens (parameters ! 0)
      in if flagLine optionArray
         then secondLine parameters
                @ appendIfMatching optionArray ''multiple'' '' *(Multiple Answers)* ''
                @ appendIfMatching optionArray ''anon'' '' *(Anonymous)* ''
         else parameters ! 0)"

definition slashCreateBlocks :: "string \<Rightarrow> string list \<Rightarrow> block list" where
  "slashCreateBlocks author parameters =
     (let mrkdwnValue = titleText parameters;
          titleBlock = buildSectionBlock mrkdwnValue;
          start = (if mrkdwnValue = parameters ! 0 then 1 else 2);
          actionBlocks = buildVoteOptions parameters start
      in [titleBlock, buildContextBlock (''Asked by: '' @ author)]
           @ (actionBlocks @ [Actions [controlMenu]]) @ [Divider])"

definition slashCreate :: "string \<Rightarrow> string list \<Rightarrow> error + poll" where
  "slashCreate author parameters =
     (if parameters = [] then Inl TypeError
      else Poll_new (slashCreateBlocks author parameters))"

section \<open>Vocabulary of the properties\<close>

text \<open>
  A flag token is given when line 0 starts with a flag (\<^const>\<open>flagLine\<close>) and the keyword
  is its first or its second token, in any case of letters. The question text is line 1
  when line 0 starts with a flag, and line 0 otherwise.
\<close>

definition flagGiven :: "string \<Rightarrow> string list \<Rightarrow> bool" where
  "flagGiven keyword optionArray =
     (flagLine optionArray
      \<and> (toLowerCase (optionArray ! 0) = keyword \<or> toLowerCase (optionArray ! 1) = keyword))"

definition questionText :: "string list \<Rightarrow> string" where
  "questionText parameters =
     (if flagLine (optionTokens (parameters ! 0)) then secondLine parameters
      else parameters ! 0)"

text \<open>
  The buttons of a list of blocks, as pairs of label and votes string, in the order in which
  \<^const>\<open>processBlocks\<close> meets them. A vote walks the blocks from position 2 to the end of
  the message, the tally the blocks from position 2 up to the last divider.
\<close>

fun buttonsOfElements :: "element list \<Rightarrow> (string \<times> string) list" where
  "buttonsOfElements [] = []"
| "buttonsOfElements (Button l v # es) = (l, v) # buttonsOfElements es"
| "buttonsOfElements (e # es) = buttonsOfElements es"

fun buttonsOf :: "block list \<Rightarrow> (string \<times> string) list" where
  "buttonsOf [] = []"
| "buttonsOf (Actions es # bs) = buttonsOfElements es @ buttonsOf bs"
| "buttonsOf (b # bs) = buttonsOf bs"

definition voteButtons :: "block list \<Rightarrow> (string \<times> string) list" where
  "voteButtons msg = buttonsOf (drop 2 msg)"

definition tallyButtons :: "block list \<Rightarrow> (string \<times> string) list" where
  "tallyButtons msg = buttonsOf (take (nat (getDividerId msg) - 2) (drop 2 msg))"

text \<open>The voters of a votes string: the elements after the placeholder.\<close>

definition votersOf :: "string \<Rightarrow> string list" where
  "votersOf v = tl (split_js CHR '','' v)"

text \<open>The votes string a vote leaves on a button, and the one a reset leaves.\<close>

definition voteValue :: "bool \<Rightarrow> string \<Rightarrow> string \<Rightarrow> string \<Rightarrow> string \<Rightarrow> string" where
  "voteValue multi buttonText userId l v = fst (voteCallback multi buttonText userId () l v)"

definition resetValue :: "string \<Rightarrow> string \<Rightarrow> string" where
  "resetValue userId v = fst (resetCallback True userId () [] v)"

text \<open>Rewriting the votes string of every button of the blocks from position 2 on.\<close>

fun mapElement :: "(string \<Rightarrow> string \<Rightarrow> string) \<Rightarrow> element \<Rightarrow> element" where
  "mapElement f (Button l v) = Button l (f l v)"
| "mapElement f e = e"

fun mapBlock :: "(string \<Rightarrow> string \<Rightarrow> string) \<Rightarrow> block \<Rightarrow> block" where
  "mapBlock f (Actions es) = Actions (map (mapElement f) es)"
| "mapBlock f b = b"

definition mapFrom2 :: "(string \<Rightarrow> string \<Rightarrow> string) \<Rightarrow> block list \<Rightarrow> block list" where
  "mapFrom2 f msg = take 2 msg @ map (mapBlock f) (drop 2 msg)"

text \<open>The object \<^verbatim>\<open>votes\<close> after the tally has walked a list of buttons.\<close>

definition putAll :: "(string \<times> string) list \<Rightarrow> votesObject \<Rightarrow> votesObject" where
  "putAll bl acc = fold (\<lambda>(l, v) votes. votes_put votes l v) bl acc"

definition votesFrom :: "(string \<times> string) list \<Rightarrow> votesObject" where
  "votesFrom bl = putAll bl []"

text \<open>The text of the result line of a key with the given voters.\<close>

definition lineText :: "bool \<Rightarrow> bool \<Rightarrow> string \<Rightarrow> string list \<Rightarrow> string" where
  "lineText anon overrideAnon key users =
     ''*'' @ decimal (length users) @ ''* '' @ key @ guillemet
       @ (if \<not> anon \<or> overrideAnon then join_js '','' (map mention users) else ''~HIDDEN~'')"


text \<open>
  The result lines of a list of buttons with distinct labels: one line for every button
  with a voter, none for the others.
\<close>

definition optionLines :: "bool \<Rightarrow> bool \<Rightarrow> (string \<times> string) list \<Rightarrow> block multiset" where
  "optionLines anon overrideAnon bl =
     image_mset (\<lambda>(l, v). Section (lineText anon overrideAnon l (votersOf v)))
       (filter_mset (\<lambda>(l, v). votersOf v \<noteq> []) (mset bl))"

text \<open>The blocks after the last divider.\<close>

definition resultSection :: "block list \<Rightarrow> block list" where
  "resultSection msg = drop (nat (getDividerId msg + 1)) msg"

section \<open>Example polls\<close>

text \<open>An open poll with one vote, and the blocks \<^verbatim>\<open>lockPoll\<close> makes of it.\<close>

definition openExample :: poll where
  "openExample =
     \<lparr>message =
        [Section ''Q'', Context [''Asked by: <@U1>''],
         Actions [Button ''A'' '' ,U1'', Button ''B'' '' ''],
         Actions [controlMenu], Divider,
         Section (''*1* A'' @ guillemet @ ''<@U1>'')],
      multiple = False, anonymous = False, isLocked = False\<rparr>"

definition lockedExample :: "block list" where
  "lockedExample =
     [Section ''Q'', Context [''Asked by: <@U1>''],
      Actions [Button ''A'' '' ,U1'', Button ''B'' '' ''],
      Actions
        [StaticSelect ''Poll Options''
           [(''Reset your vote'', ''reset''), ('':unlock: Unlock poll'', ''unlock''),
            (''Move to bottom'', ''bottom''), (''Delete poll'', ''delete'')]],
      Divider, Section '':lock:'',
      Section (''*1* A'' @ guillemet @ ''<@U1>'')]"

text \<open>A poll of three options: two voters on the first, one on the third.\<close>

definition tallyExample :: poll where
  "tallyExample =
     \<lparr>message =
        [Section ''Q'', Context [''Asked by: <@U1>''],
         Actions [Button ''A'' '' ,U1,U2'', Button ''B'' '' '', Button ''C'' '' ,U3''],
         Actions [controlMenu], Divider],
      multiple = False, anonymous = False, isLocked = False\<rparr>"

text \<open>A poll whose two options carry the same label; only the first has a voter.\<close>

definition sameLabelExample :: poll where
  "sameLabelExample =
     \<lparr>message =
        [Section ''Q'', Context [''Asked by: <@U1>''],
         Actions [Button ''A'' '' ,U1'', Button ''A'' '' ''],
         Actions [controlMenu], Divider],
      multiple = False, anonymous = False, isLocked = False\<rparr>"

text \<open>The blocks of the poll \<open>multiple / Lunch? / Pizza / Tacos\<close> asked by \<open><@U1>\<close>.\<close>

definition lunchBlocks :: "block list" where
  "lunchBlocks =
     [Section ''Lunch? *(Multiple Answers)* '', Context [''Asked by: <@U1>''],
      Actions [Button ''Pizza'' '' '', Button ''Tacos'' '' ''],
      Actions [controlMenu], Divider]"

text \<open>
  The blocks of the single-choice poll \<open>Q / A / B / C / D / A\<close>: the fifth line opens a
  second actions block, so the two options \<open>A\<close> are in different blocks.
\<close>

definition twoGroupsBlocks :: "block list" where
  "twoGroupsBlocks =
     [Section ''Q'', Context [''Asked by: <@U1>''],
      Actions [Button ''A'' '' '', Button ''B'' '' '', Button ''C'' '' '', Button ''D'' '' ''],
      Actions [Button ''A'' '' ''],
      Actions [controlMenu], Divider]"

text \<open>
  An anonymous poll whose options are mentions of users; \<open>U2\<close> has voted for the option
  that mentions \<open>U2\<close>.
\<close>

definition anonBlocks :: "block list" where
  "anonBlocks =
     [Section ''Who presents? *(Anonymous)* '', Context [''Asked by: <@U1>''],
      Actions [Button ''<@U2>'' '' ,U2'', Button ''<@U3>'' '' ''],
      Actions [controlMenu], Divider,
      Section (''*1* <@U2>'' @ guillemet @ ''~HIDDEN~'')]"

definition anonExample :: poll where
  "anonExample = \<lparr>message = anonBlocks, multiple = False, anonymous = True, isLocked = False\<rparr>"

text \<open>An anonymous single-choice poll in which \<open>U1\<close> has voted for \<open>A\<close>.\<close>

definition anonMoveBlocks :: "block list" where
  "anonMoveBlocks =
     [Section ''Q *(Anonymous)* '', Context [''Asked by: <@U9>''],
      Actions [Button ''A'' '' ,U1'', Button ''B'' '' ''],
      Actions [controlMenu], Divider,
      Section (''*1* A'' @ guillemet @ ''~HIDDEN~'')]"

text \<open>
  A single-choice poll whose two options \<open>A\<close> lie in one actions block; \<open>U2\<close> stands on
  both.
\<close>

definition oneGroupBlocks :: "block list" where
  "oneGroupBlocks =
     [Section ''Q'', Context [''Asked by: <@U1>''],
      Actions [Button ''A'' '' ,U2'', Button ''A'' '' ,U2''],
      Actions [controlMenu], Divider,
      Section (''*1* A'' @ guillemet @ ''<@U2>'')]"

text \<open>The locked poll that the blocks \<^const>\<open>lockedExample\<close> decode to.\<close>

definition lockedPoll :: poll where
  "lockedPoll =
     \<lparr>message = lockedExample, multiple = False, anonymous = False, isLocked = True\<rparr>"

text \<open>
  The blocks of the single-choice poll \<open>Q / A / A / B / C / A\<close>: three options carry the
  label \<open>A\<close>, two of them in the first actions block and one in the second.
\<close>

definition threeSameBlocks :: "block list" where
  "threeSameBlocks =
     [Section ''Q'', Context [''Asked by: <@U9>''],
      Actions [Button ''A'' '' '', Button ''A'' '' '', Button ''B'' '' '', Button ''C'' '' ''],
      Actions [Button ''A'' '' ''],
      Actions [controlMenu], Divider]"

text \<open>The blocks of the poll \<open>Q / __proto__ / __proto__\<close>.\<close>

definition protoBlocks :: "block list" where
  "protoBlocks =
     [Section ''Q'', Context [''Asked by: <@U9>''],
      Actions [Button ''__proto__'' '' '', Button ''__proto__'' '' ''],
      Actions [controlMenu], Divider]"

section \<open>Splitting and joining\<close>

lemma split_js_not_Nil [simp]: "split_js c s \<noteq> []"
  by (induction s) (auto split: list.splits)

lemma join_split_js: "join_js [c] (split_js c s) = s"
proof (induction s)
  case Nil
  show ?case by simp
next
  case (Cons x s)
  obtain w ws where ws: "split_js c s = w # ws" by (cases "split_js c s") auto
  with Cons show ?case by (cases ws) auto
qed

lemma split_js_no_sep: "x \<in> set (split_js c s) \<Longrightarrow> c \<notin> set x"
proof (induction s arbitrary: x)
  case Nil
  then show ?case by simp
next
  case (Cons a s)
  obtain w ws where ws: "split_js c s = w # ws" by (cases "split_js c s") auto
  with Cons show ?case by (auto split: if_splits)
qed

lemma split_js_no_sep_single: "c \<notin> set x \<Longrightarrow> split_js c x = [x]"
  by (induction x) auto

lemma split_js_append_sep:
  "c \<notin> set x \<Longrightarrow> split_js c (x @ c # s) = x # split_js c s"
  by (induction x) auto

lemma split_join_js:
  "xs \<noteq> [] \<Longrightarrow> \<forall>x \<in> set xs. c \<notin> set x \<Longrightarrow> split_js c (join_js [c] xs) = xs"
proof (induction "[c]" xs rule: join_js.induct)
  case (3 x y ys)
  then show ?case by (simp add: split_js_append_sep)
qed (simp_all add: split_js_no_sep_single)

lemma join_js_snoc: "xs \<noteq> [] \<Longrightarrow> join_js sep (xs @ [u]) = join_js sep xs @ sep @ u"
  by (induction sep xs rule: join_js.induct) auto

lemma indexOf_ge: "- 1 \<le> indexOf xs v"
  by (induction xs) (auto simp: Let_def)

lemma indexOf_none: "indexOf xs v = -1 \<longleftrightarrow> v \<notin> set xs"
proof (induction xs)
  case Nil
  show ?case by simp
next
  case (Cons x xs)
  then show ?case using indexOf_ge [of xs v] by (auto simp: Let_def)
qed

lemma splice1_indexOf: "v \<in> set xs \<Longrightarrow> splice1 (indexOf xs v) xs = remove1 v xs"
proof (induction xs)
  case Nil
  then show ?case by simp
next
  case (Cons x xs)
  show ?case
  proof (cases "x = v")
    case True
    then show ?thesis by (simp add: splice1_def)
  next
    case False
    with Cons.prems have v: "v \<in> set xs" by simp
    then have "indexOf xs v \<noteq> -1" by (simp add: indexOf_none)
    with indexOf_ge [of xs v] have ge: "0 \<le> indexOf xs v" by linarith
    then have "nat (indexOf xs v + 1) = Suc (nat (indexOf xs v))" by linarith
    with False v Cons.IH ge show ?thesis
      by (simp add: splice1_def Let_def indexOf_none)
  qed
qed

section \<open>Decoding\<close>

lemma Poll_new_message: "Poll_new msg = Inr p \<Longrightarrow> message p = msg"
  by (auto simp: Poll_new_def split: sum.splits if_splits)

lemma getDividerId_from_last:
  "k \<le> length post \<Longrightarrow> Divider \<notin> set post \<Longrightarrow>
     getDividerId_from (pre @ Divider # post) (Suc (length pre) + k) = int (length pre)"
proof (induction k)
  case 0
  then show ?case by simp
next
  case (Suc k)
  then have "post ! k \<in> set post" by simp
  with Suc.prems have "post ! k \<noteq> Divider" by metis
  moreover have "(pre @ Divider # post) ! (Suc (length pre) + k) = post ! k"
    by (simp add: nth_append)
  ultimately show ?case using Suc by simp
qed

lemma getDividerId_last:
  "Divider \<notin> set post \<Longrightarrow> getDividerId (pre @ Divider # post) = int (length pre)"
  using getDividerId_from_last [of "length post" post pre] by (simp add: getDividerId_def)

lemma getDividerId_from_none:
  "k \<le> length msg \<Longrightarrow> Divider \<notin> set (take k msg) \<Longrightarrow> getDividerId_from msg k = -1"
proof (induction k)
  case 0
  then show ?case by simp
next
  case (Suc k)
  then show ?case by (auto simp: take_Suc_conv_app_nth)
qed

lemma getDividerId_none: "Divider \<notin> set msg \<Longrightarrow> getDividerId msg = -1"
  using getDividerId_from_none [of "length msg" msg] by (simp add: getDividerId_def)

lemma error_eq [simp]: "(e :: error) = e'"
  by (cases e; cases e') simp

lemma textOf_Inl: "textOf msg i = Inl e \<longleftrightarrow> \<not> (i < length msg \<and> (\<exists>t. msg ! i = Section t))"
  by (cases e) (auto simp: textOf_def split: block.splits)

lemma Poll_new_Inl:
  "Poll_new msg = Inl e \<longleftrightarrow>
     textOf msg 0 = Inl e \<or>
     (int (length msg) - 1 \<noteq> getDividerId msg \<and> textOf msg (nat (getDividerId msg + 1)) = Inl e)"
  by (auto simp: Poll_new_def checkIfMsgContains_def getTitleFromMsg_def split: sum.splits)

section \<open>What the walks compute\<close>

lemma processElements_map:
  assumes "\<And>l v. cb s l v = (f l v, s, False)"
  shows "processElements cb es s = (map (mapElement f) es, s)"
proof (induction es)
  case Nil
  show ?case by simp
next
  case (Cons e es)
  then show ?case using assms by (cases e) simp_all
qed

lemma processBlocks_map:
  assumes "\<And>l v. cb s l v = (f l v, s, False)"
  shows "processBlocks cb bs s = (map (mapBlock f) bs, s)"
proof (induction bs)
  case Nil
  show ?case by simp
next
  case (Cons b bs)
  then show ?case using processElements_map [of cb s f, OF assms] by (cases b) simp_all
qed

lemma processButtons_all_map:
  assumes "\<And>l v. cb s l v = (f l v, s, False)"
  shows "processButtons (int (length msg)) cb msg s = (mapFrom2 f msg, s)"
  using processBlocks_map [of cb s f, OF assms]
  by (simp add: processButtons_def mapFrom2_def)

lemma voteCallback_value:
  "voteCallback multi buttonText userId s l v = (voteValue multi buttonText userId l v, s, False)"
  by (simp add: voteCallback_def voteValue_def Let_def)

lemma processElements_tally:
  "processElements tallyCallback es votes =
     (es, fold (\<lambda>(l, v) votes. votes_put votes l v) (buttonsOfElements es) votes)"
proof (induction es arbitrary: votes)
  case Nil
  show ?case by simp
next
  case (Cons e es)
  then show ?case by (cases e) (simp_all add: tallyCallback_def)
qed

lemma processBlocks_tally:
  "processBlocks tallyCallback bs votes =
     (bs, fold (\<lambda>(l, v) votes. votes_put votes l v) (buttonsOf bs) votes)"
proof (induction bs arbitrary: votes)
  case Nil
  show ?case by simp
next
  case (Cons b bs)
  then show ?case by (cases b) (simp_all add: processElements_tally)
qed

lemma processButtons_tally:
  "snd (processButtons (getDividerId msg) tallyCallback msg []) = votesFrom (tallyButtons msg)"
  by (simp add: processButtons_def processBlocks_tally votesFrom_def putAll_def tallyButtons_def)

lemma generateResults_votesFrom:
  "generateResults p overrideAnon =
     (if isLocked p then [buildSectionBlock '':lock:''] else [])
       @ List.map_filter
           (buildVoteTally (anonymous p) overrideAnon (votesFrom (tallyButtons (message p))))
           (ownKeys (votesFrom (tallyButtons (message p))))"
  by (simp add: generateResults_def processButtons_tally Let_def)

lemma buttonsOfElements_map:
  "buttonsOfElements (map (mapElement f) es) = map (\<lambda>(l, v). (l, f l v)) (buttonsOfElements es)"
proof (induction es)
  case Nil
  show ?case by simp
next
  case (Cons e es)
  then show ?case by (cases e) simp_all
qed

lemma buttonsOf_map:
  "buttonsOf (map (mapBlock f) bs) = map (\<lambda>(l, v). (l, f l v)) (buttonsOf bs)"
proof (induction bs)
  case Nil
  show ?case by simp
next
  case (Cons b bs)
  then show ?case by (cases b) (simp_all add: buttonsOfElements_map)
qed

lemma drop2_mapFrom2: "drop 2 (mapFrom2 f msg) = map (mapBlock f) (drop 2 msg)"
  by (cases msg rule: list.exhaust; cases "tl msg") (auto simp: mapFrom2_def)

lemma length_mapFrom2 [simp]: "length (mapFrom2 f msg) = length msg"
  by (simp add: mapFrom2_def)

lemma mapBlock_Divider [simp]: "mapBlock f b = Divider \<longleftrightarrow> b = Divider"
  by (cases b) simp_all

lemma mapFrom2_nth_Divider:
  assumes "i < length msg"
  shows "mapFrom2 f msg ! i = Divider \<longleftrightarrow> msg ! i = Divider"
proof (cases "i < 2")
  case True
  with assms show ?thesis by (simp add: mapFrom2_def nth_append)
next
  case False
  then have "Suc (Suc (i - 2)) = i" by arith
  with False assms show ?thesis by (simp add: mapFrom2_def nth_append min_def)
qed

lemma getDividerId_from_mapFrom2:
  "k \<le> length msg \<Longrightarrow> getDividerId_from (mapFrom2 f msg) k = getDividerId_from msg k"
  by (induction k) (simp_all add: mapFrom2_nth_Divider)

lemma getDividerId_mapFrom2 [simp]: "getDividerId (mapFrom2 f msg) = getDividerId msg"
  by (simp add: getDividerId_def getDividerId_from_mapFrom2)

lemma tallyButtons_mapFrom2:
  "tallyButtons (mapFrom2 f msg) = map (\<lambda>(l, v). (l, f l v)) (tallyButtons msg)"
  by (simp add: tallyButtons_def drop2_mapFrom2 take_map buttonsOf_map)

lemma voteButtons_mapFrom2:
  "voteButtons (mapFrom2 f msg) = map (\<lambda>(l, v). (l, f l v)) (voteButtons msg)"
  by (simp add: voteButtons_def drop2_mapFrom2 buttonsOf_map)

lemma vote_unlocked:
  "\<not> isLocked p \<Longrightarrow>
     vote p buttonText userId =
       generateVoteResults
         (p\<lparr>message := mapFrom2 (voteValue (multiple p) buttonText userId) (message p)\<rparr>)"
  by (simp add: vote_def processButtons_all_map [OF voteCallback_value])

section \<open>The votes object\<close>

lemma putAll_simps [simp]:
  "putAll [] acc = acc"
  "putAll ((l, v) # bl) acc = putAll bl (votes_put acc l v)"
  "putAll (bl @ bl') acc = putAll bl' (putAll bl acc)"
  by (simp_all add: putAll_def)

lemma votesFrom_putAll: "votesFrom bl = putAll bl []"
  by (simp add: votesFrom_def)

lemma map_of_votes_put:
  "map_of (votes_put acc l v) k = (if l = ''__proto__'' then map_of acc k else ((map_of acc)(l \<mapsto> v)) k)"
  by (simp add: votes_put_def update_conv')

lemma keys_votes_put:
  "fst ` set (votes_put acc l v) = (if l = ''__proto__'' then fst ` set acc else insert l (fst ` set acc))"
  by (simp add: votes_put_def dom_update)

lemma distinct_votes_put: "distinct (map fst acc) \<Longrightarrow> distinct (map fst (votes_put acc l v))"
  by (simp add: votes_put_def distinct_update)

lemma map_of_putAll_other:
  "k \<notin> fst ` set bl \<Longrightarrow> map_of (putAll bl acc) k = map_of acc k"
  by (induction bl arbitrary: acc) (auto simp: map_of_votes_put)

lemma map_of_putAll_last:
  assumes "bl = pre @ (k, v) # post" and "k \<notin> fst ` set post" and "k \<noteq> ''__proto__''"
  shows "map_of (putAll bl acc) k = Some v"
  using assms by (simp add: map_of_putAll_other map_of_votes_put)

lemma keys_putAll:
  "fst ` set (putAll bl acc) = fst ` set acc \<union> (fst ` set bl - {''__proto__''})"
proof (induction bl arbitrary: acc)
  case Nil
  show ?case by simp
next
  case (Cons b bl)
  obtain l v where b: "b = (l, v)" by (cases b)
  have "fst ` set (putAll (b # bl) acc) =
      fst ` set (votes_put acc l v) \<union> (fst ` set bl - {''__proto__''})"
    unfolding b putAll_simps Cons.IH ..
  also have "\<dots> = fst ` set acc \<union> (fst ` set (b # bl) - {''__proto__''})"
    unfolding keys_votes_put b by auto
  finally show ?case .
qed

lemma distinct_putAll: "distinct (map fst acc) \<Longrightarrow> distinct (map fst (putAll bl acc))"
  by (induction bl arbitrary: acc) (auto simp: distinct_votes_put)

lemma update_fresh: "k \<notin> fst ` set al \<Longrightarrow> AList.update k v al = al @ [(k, v)]"
  by (induction al) auto

lemma putAll_distinct:
  assumes "distinct (map fst bl)" and "''__proto__'' \<notin> fst ` set bl"
    and "fst ` set acc \<inter> fst ` set bl = {}"
  shows "putAll bl acc = acc @ bl"
  using assms
proof (induction bl arbitrary: acc)
  case Nil
  show ?case by simp
next
  case (Cons b bl)
  obtain l v where b: "b = (l, v)" by (cases b)
  with Cons.prems have put: "votes_put acc l v = acc @ [(l, v)]"
    by (auto simp: votes_put_def update_fresh)
  have "putAll bl (acc @ [(l, v)]) = (acc @ [(l, v)]) @ bl"
    using Cons.prems b by (intro Cons.IH) auto
  with b put show ?case by simp
qed

lemma votesFrom_distinct:
  "distinct (map fst bl) \<Longrightarrow> ''__proto__'' \<notin> fst ` set bl \<Longrightarrow> votesFrom bl = bl"
  using putAll_distinct [of bl "[]"] by (simp add: votesFrom_putAll)

lemma set_ownKeys: "set (ownKeys votes) = fst ` set votes"
  by (auto simp: ownKeys_def)

lemma mset_ownKeys: "mset (ownKeys votes) = mset (map fst votes)"
  by (simp add: ownKeys_def)

lemma distinct_ownKeys: "distinct (map fst votes) \<Longrightarrow> distinct (ownKeys votes)"
  by (metis mset_ownKeys mset_eq_imp_distinct_iff)

section \<open>The result lines\<close>

lemma buildVoteTally_eq:
  "buildVoteTally anon overrideAnon votes key =
     (case map_of votes key of None \<Rightarrow> None
      | Some v \<Rightarrow> if votersOf v = [] then None
                  else Some (Section (lineText anon overrideAnon key (votersOf v))))"
  by (simp add: buildVoteTally_def votersOf_def lineText_def Let_def buildSectionBlock_def
      split: option.splits)

lemma generateResults_lines:
  "generateResults p overrideAnon =
     (if isLocked p then [Section '':lock:''] else [])
       @ List.map_filter
           (buildVoteTally (anonymous p) overrideAnon (votesFrom (tallyButtons (message p))))
           (ownKeys (votesFrom (tallyButtons (message p))))"
  by (simp add: generateResults_votesFrom buildSectionBlock_def)

lemma mset_map_filter:
  "mset (List.map_filter f xs) = image_mset (\<lambda>x. the (f x)) (filter_mset (\<lambda>x. f x \<noteq> None) (mset xs))"
  by (induction xs) (auto simp: List.map_filter_def)

lemma map_filter_lines_distinct:
  assumes "distinct (map fst bl)"
  shows "mset (List.map_filter (buildVoteTally anon ov bl) (ownKeys bl)) = optionLines anon ov bl"
proof -
  let ?f = "buildVoteTally anon ov bl"
  have f: "?f l = (if votersOf v = [] then None else Some (Section (lineText anon ov l (votersOf v))))"
    if "(l, v) \<in> set bl" for l v
    using that assms by (simp add: buildVoteTally_eq)
  have "mset (List.map_filter ?f (ownKeys bl)) =
      image_mset (\<lambda>k. the (?f k)) (filter_mset (\<lambda>k. ?f k \<noteq> None) (image_mset fst (mset bl)))"
    by (simp add: mset_map_filter mset_ownKeys)
  also have "\<dots> = image_mset (\<lambda>b. the (?f (fst b))) (filter_mset (\<lambda>b. ?f (fst b) \<noteq> None) (mset bl))"
    by (simp add: filter_mset_image_mset image_mset.compositionality comp_def)
  also have "filter_mset (\<lambda>b. ?f (fst b) \<noteq> None) (mset bl)
      = filter_mset (\<lambda>(l, v). votersOf v \<noteq> []) (mset bl)"
    by (rule filter_mset_cong) (auto simp: f)
  also have "image_mset (\<lambda>b. the (?f (fst b))) (filter_mset (\<lambda>(l, v). votersOf v \<noteq> []) (mset bl))
      = image_mset (\<lambda>(l, v). Section (lineText anon ov l (votersOf v)))
          (filter_mset (\<lambda>(l, v). votersOf v \<noteq> []) (mset bl))"
    by (rule image_mset_cong) (auto simp: f)
  finally show ?thesis by (simp add: optionLines_def)
qed

lemma generateResults_distinct_labels:
  assumes "distinct (map fst (tallyButtons (message p)))"
    and "''__proto__'' \<notin> fst ` set (tallyButtons (message p))"
  shows "mset (generateResults p overrideAnon) =
     (if isLocked p then {#Section '':lock:''#} else {#})
       + optionLines (anonymous p) overrideAnon (tallyButtons (message p))"
  using assms
  by (simp add: generateResults_lines votesFrom_distinct map_filter_lines_distinct)

section \<open>The message after a vote\<close>

lemma set_map_filter: "set (List.map_filter f xs) = {y. \<exists>x \<in> set xs. f x = Some y}"
  by (induction xs) (auto simp: List.map_filter_def)

lemma generateResults_sections:
  "b \<in> set (generateResults p overrideAnon) \<Longrightarrow> \<exists>t. b = Section t"
  by (auto simp: generateResults_lines set_map_filter buildVoteTally_eq
      split: if_splits option.splits)

lemma getDividerId_cases:
  obtains (none) "Divider \<notin> set msg" "getDividerId msg = -1"
  | (last) pre post where "msg = pre @ Divider # post" "Divider \<notin> set post"
      "getDividerId msg = int (length pre)"
proof (cases "Divider \<in> set msg")
  case False
  then show ?thesis using none by (simp add: getDividerId_none)
next
  case True
  then obtain pre post where "msg = pre @ Divider # post" "Divider \<notin> set post"
    by (auto dest: split_list_last)
  then show ?thesis using last by (simp add: getDividerId_last)
qed

lemma take_results_cases:
  obtains (none) "Divider \<notin> set msg" "getDividerId msg = -1"
      "take (nat (getDividerId msg + 1)) msg = []"
  | (last) pre post where "msg = pre @ Divider # post" "Divider \<notin> set post"
      "getDividerId msg = int (length pre)"
      "take (nat (getDividerId msg + 1)) msg = pre @ [Divider]"
proof (cases msg rule: getDividerId_cases)
  case none
  then show ?thesis using that(1) by simp
next
  case (last pre post)
  then show ?thesis using that(2) [of pre post] by (simp add: nat_add_distrib)
qed

lemma getDividerId_take_results:
  assumes "Divider \<notin> set R"
  shows "getDividerId (take (nat (getDividerId msg + 1)) msg @ R) = getDividerId msg"
proof (cases msg rule: take_results_cases)
  case none
  with assms show ?thesis by (simp add: getDividerId_none)
next
  case (last pre post)
  with assms show ?thesis by (simp add: getDividerId_last)
qed

lemma take_drop2_prefix: "take (length pre - 2) (drop 2 (pre @ ys)) = drop 2 pre"
  by simp

lemma tallyButtons_last:
  "Divider \<notin> set post \<Longrightarrow> tallyButtons (pre @ Divider # post) = buttonsOf (drop 2 pre)"
  by (simp add: tallyButtons_def getDividerId_last)

lemma tallyButtons_none: "Divider \<notin> set msg \<Longrightarrow> tallyButtons msg = []"
  by (simp add: tallyButtons_def getDividerId_none)

lemma tallyButtons_take_results:
  assumes "Divider \<notin> set R"
  shows "tallyButtons (take (nat (getDividerId msg + 1)) msg @ R) = tallyButtons msg"
proof (cases msg rule: take_results_cases)
  case none
  with assms show ?thesis by (simp add: tallyButtons_none)
next
  case (last pre post)
  with assms show ?thesis by (simp add: tallyButtons_last)
qed

lemma resultSection_take_results:
  assumes "Divider \<notin> set R"
  shows "resultSection (take (nat (getDividerId msg + 1)) msg @ R) = R"
proof (cases msg rule: take_results_cases)
  case none
  with assms show ?thesis by (simp add: resultSection_def getDividerId_none)
next
  case (last pre post)
  with assms show ?thesis by (simp add: resultSection_def getDividerId_last nat_add_distrib)
qed

lemma generateResults_no_divider: "Divider \<notin> set (generateResults p overrideAnon)"
  using generateResults_sections by blast

lemma generateResults_cong:
  assumes "isLocked q = isLocked p" "anonymous q = anonymous p"
    "tallyButtons (message q) = tallyButtons (message p)"
  shows "generateResults q overrideAnon = generateResults p overrideAnon"
  using assms by (simp add: generateResults_lines)

lemma generateVoteResults_fields [simp]:
  "isLocked (generateVoteResults p) = isLocked p"
  "anonymous (generateVoteResults p) = anonymous p"
  "multiple (generateVoteResults p) = multiple p"
  by (simp_all add: generateVoteResults_def)

lemma generateVoteResults_tallyButtons:
  "tallyButtons (message (generateVoteResults p)) = tallyButtons (message p)"
  by (simp add: generateVoteResults_def tallyButtons_take_results generateResults_no_divider)

lemma generateVoteResults_results:
  "generateResults (generateVoteResults p) overrideAnon = generateResults p overrideAnon"
  by (rule generateResults_cong) (simp_all add: generateVoteResults_tallyButtons)

lemma generateVoteResults_resultSection:
  "resultSection (message (generateVoteResults p)) = generateResults p False"
  by (simp add: generateVoteResults_def resultSection_take_results generateResults_no_divider)

lemma generateVoteResults_getDividerId:
  "getDividerId (message (generateVoteResults p)) = getDividerId (message p)"
  by (simp add: generateVoteResults_def getDividerId_take_results generateResults_no_divider)

lemma vote_fields [simp]:
  "isLocked (vote p buttonText userId) = isLocked p"
  "anonymous (vote p buttonText userId) = anonymous p"
  "multiple (vote p buttonText userId) = multiple p"
  by (simp_all add: vote_def)

lemma vote_tallyButtons:
  "\<not> isLocked p \<Longrightarrow>
     tallyButtons (message (vote p buttonText userId)) =
       map (\<lambda>(l, v). (l, voteValue (multiple p) buttonText userId l v)) (tallyButtons (message p))"
  by (simp add: vote_unlocked generateVoteResults_tallyButtons tallyButtons_mapFrom2)

lemma vote_resultSection:
  "\<not> isLocked p \<Longrightarrow>
     resultSection (message (vote p buttonText userId)) =
       generateResults (vote p buttonText userId) False"
  by (simp add: vote_unlocked generateVoteResults_resultSection generateVoteResults_results)

section \<open>The votes string after a vote\<close>

lemma voteValue_eq:
  "voteValue multi buttonText userId l v =
     join_js '',''
       (if \<not> multi \<and> userId \<in> set (split_js CHR '','' v) \<and> l \<noteq> buttonText
        then remove1 userId (split_js CHR '','' v)
        else if l = buttonText \<and> userId \<notin> set (split_js CHR '','' v)
        then split_js CHR '','' v @ [userId]
        else split_js CHR '','' v)"
proof -
  have "indexOf (split_js CHR '','' v) userId > -1 \<longleftrightarrow> userId \<in> set (split_js CHR '','' v)"
    using indexOf_none [of "split_js CHR '','' v" userId] indexOf_ge [of "split_js CHR '','' v" userId]
    by linarith
  then show ?thesis
    by (simp add: voteValue_def voteCallback_def Let_def splice1_indexOf indexOf_none)
qed

lemma voteValue_target_new:
  "userId \<notin> set (split_js CHR '','' v) \<Longrightarrow>
     voteValue multi buttonText userId buttonText v = v @ '','' @ userId"
  by (simp add: voteValue_eq join_js_snoc join_split_js)

lemma voteValue_target_old:
  "userId \<in> set (split_js CHR '','' v) \<Longrightarrow> voteValue multi buttonText userId buttonText v = v"
  by (simp add: voteValue_eq join_split_js)

lemma voteValue_other_absent:
  "l \<noteq> buttonText \<Longrightarrow> userId \<notin> set (split_js CHR '','' v) \<Longrightarrow>
     voteValue multi buttonText userId l v = v"
  by (simp add: voteValue_eq join_split_js)

lemma voteValue_other_multi: "l \<noteq> buttonText \<Longrightarrow> voteValue True buttonText userId l v = v"
  by (simp add: voteValue_eq join_split_js)

lemma voteValue_other_single:
  "l \<noteq> buttonText \<Longrightarrow> userId \<in> set (split_js CHR '','' v) \<Longrightarrow>
     voteValue False buttonText userId l v = join_js '','' (remove1 userId (split_js CHR '','' v))"
  by (simp add: voteValue_eq)

lemma split_js_append:
  "split_js c (a @ c # b) = split_js c a @ split_js c b"
proof (induction a)
  case Nil
  show ?case by simp
next
  case (Cons x a)
  obtain w ws where "split_js c a = w # ws" by (cases "split_js c a") auto
  with Cons show ?case by auto
qed

lemma split_js_snoc_user:
  "CHR '','' \<notin> set userId \<Longrightarrow>
     split_js CHR '','' (v @ CHR '','' # userId) = split_js CHR '','' v @ [userId]"
  by (simp add: split_js_append split_js_no_sep_single)

lemma split_join_remove1:
  assumes "remove1 u (split_js c v) \<noteq> []"
  shows "split_js c (join_js [c] (remove1 u (split_js c v))) = remove1 u (split_js c v)"
proof (rule split_join_js [OF assms])
  show "\<forall>x \<in> set (remove1 u (split_js c v)). c \<notin> set x"
    using split_js_no_sep [of _ c v] by (meson notin_set_remove1)
qed

lemma notin_remove1_count:
  "count_list xs u \<le> 1 \<Longrightarrow> u \<notin> set (remove1 u xs)"
  by (induction xs) (auto split: if_splits simp: count_list_0_iff)

lemma voteValue_idem:
  assumes comma: "CHR '','' \<notin> set userId"
    and once: "multi \<or> l = buttonText \<or> count_list (split_js CHR '','' v) userId \<le> 1"
  shows "voteValue multi buttonText userId l (voteValue multi buttonText userId l v)
           = voteValue multi buttonText userId l v"
proof (cases "l = buttonText")
  case True
  show ?thesis
  proof (cases "userId \<in> set (split_js CHR '','' v)")
    case True
    with \<open>l = buttonText\<close> show ?thesis by (simp add: voteValue_target_old)
  next
    case False
    then have "voteValue multi buttonText userId l v = v @ '','' @ userId"
      using \<open>l = buttonText\<close> by (simp add: voteValue_target_new)
    moreover have "userId \<in> set (split_js CHR '','' (v @ '','' @ userId))"
      using comma by (simp add: split_js_snoc_user)
    ultimately show ?thesis using \<open>l = buttonText\<close> by (simp add: voteValue_target_old)
  qed
next
  case other: False
  show ?thesis
  proof (cases "multi \<or> userId \<notin> set (split_js CHR '','' v)")
    case True
    with other show ?thesis by (auto simp: voteValue_other_multi voteValue_other_absent)
  next
    case False
    then have single: "\<not> multi" and mem: "userId \<in> set (split_js CHR '','' v)" by auto
    let ?r = "remove1 userId (split_js CHR '','' v)"
    have v': "voteValue multi buttonText userId l v = join_js '','' ?r"
      using other single mem by (simp add: voteValue_other_single)
    have once': "count_list (split_js CHR '','' v) userId \<le> 1" using once other single by simp
    show ?thesis
    proof (cases "?r = []")
      case True
      then have "voteValue multi buttonText userId l v = []" using v' by simp
      moreover have "voteValue multi buttonText userId l [] = []"
        using other by (simp add: voteValue_eq)
      ultimately show ?thesis by simp
    next
      case False
      then have "split_js CHR '','' (join_js '','' ?r) = ?r" by (rule split_join_remove1)
      moreover have "userId \<notin> set ?r" using once' by (rule notin_remove1_count)
      ultimately show ?thesis unfolding v' using other
        by (simp add: voteValue_other_absent)
    qed
  qed
qed

section \<open>Voting again\<close>

lemma take_take_results:
  "take (nat (getDividerId msg + 1)) (take (nat (getDividerId msg + 1)) msg @ R)
     = take (nat (getDividerId msg + 1)) msg"
  by (cases msg rule: take_results_cases) (simp_all add: nat_add_distrib)

lemma generateVoteResults_idem:
  "generateVoteResults (generateVoteResults q) = generateVoteResults q"
proof -
  let ?T = "take (nat (getDividerId (message q) + 1)) (message q)"
  let ?R = "generateResults q False"
  have msg: "message (generateVoteResults q) = ?T @ ?R"
    by (simp add: generateVoteResults_def)
  have "generateVoteResults (generateVoteResults q) =
      (generateVoteResults q)\<lparr>message :=
        take (nat (getDividerId (message q) + 1)) (message (generateVoteResults q)) @ ?R\<rparr>"
    by (simp only: generateVoteResults_def [of "generateVoteResults q"]
        generateVoteResults_getDividerId generateVoteResults_results)
  also have "\<dots> = (generateVoteResults q)\<lparr>message :=
        take (nat (getDividerId (message q) + 1)) (?T @ ?R) @ ?R\<rparr>"
    by (simp only: msg)
  also have "\<dots> = (generateVoteResults q)\<lparr>message := ?T @ ?R\<rparr>"
    unfolding take_take_results ..
  also have "\<dots> = generateVoteResults q"
    by (simp add: generateVoteResults_def)
  finally show ?thesis .
qed

lemma mapElement_fixed:
  assumes "\<forall>(l, w) \<in> set (buttonsOfElements es). f l w = w"
  shows "map (mapElement f) es = es"
  using assms
proof (induction es)
  case Nil
  show ?case by simp
next
  case (Cons e es)
  then show ?case by (cases e) auto
qed

lemma mapBlock_fixed:
  assumes "\<forall>(l, w) \<in> set (buttonsOf bs). f l w = w"
  shows "map (mapBlock f) bs = bs"
  using assms
proof (induction bs)
  case Nil
  show ?case by simp
next
  case (Cons b bs)
  show ?case
  proof (cases b)
    case (Actions es)
    with Cons.prems have "\<forall>(l, w) \<in> set (buttonsOfElements es). f l w = w"
      and "\<forall>(l, w) \<in> set (buttonsOf bs). f l w = w" by auto
    with Actions Cons.IH show ?thesis by (simp add: mapElement_fixed)
  qed (use Cons in auto)
qed

lemma mapBlock_plain:
  "\<forall>b \<in> set bs. b = Divider \<or> (\<exists>t. b = Section t) \<Longrightarrow> map (mapBlock f) bs = bs"
  by (induction bs) auto

lemma mapFrom2_fixed: "map (mapBlock f) (drop 2 msg) = drop 2 msg \<Longrightarrow> mapFrom2 f msg = msg"
  by (simp add: mapFrom2_def)

lemma mapFrom2_after_results:
  assumes fixed: "\<forall>(l, w) \<in> set (tallyButtons msg). f l w = w"
    and R: "\<forall>b \<in> set R. \<exists>t. b = Section t"
  shows "mapFrom2 f (take (nat (getDividerId msg + 1)) msg @ R)
           = take (nat (getDividerId msg + 1)) msg @ R"
proof (cases msg rule: take_results_cases)
  case none
  have "map (mapBlock f) (drop 2 R) = drop 2 R"
    using R by (intro mapBlock_plain) (auto dest: in_set_dropD)
  with none show ?thesis by (simp add: mapFrom2_fixed)
next
  case (last pre post)
  with fixed have "\<forall>(l, w) \<in> set (buttonsOf (drop 2 pre)). f l w = w"
    by (simp add: tallyButtons_last)
  then have pre: "map (mapBlock f) (drop 2 pre) = drop 2 pre" by (rule mapBlock_fixed)
  have "map (mapBlock f) (drop (2 - length pre) (Divider # R)) = drop (2 - length pre) (Divider # R)"
    using R by (intro mapBlock_plain) (auto dest!: in_set_dropD)
  with pre have "map (mapBlock f) (drop 2 (pre @ Divider # R)) = drop 2 (pre @ Divider # R)"
    by simp
  with last show ?thesis by (simp add: mapFrom2_fixed)
qed

lemma voteValue_target_count:
  assumes "CHR '','' \<notin> set userId" and "count_list (split_js CHR '','' v) userId \<le> 1"
  shows "count_list (split_js CHR '','' (voteValue multi buttonText userId buttonText v)) userId = 1"
proof (cases "userId \<in> set (split_js CHR '','' v)")
  case True
  then have "count_list (split_js CHR '','' v) userId \<noteq> 0" by (simp add: count_list_0_iff)
  with assms True show ?thesis by (simp add: voteValue_target_old)
next
  case False
  with assms show ?thesis
    by (simp add: voteValue_target_new split_js_snoc_user count_list_0_iff)
qed

lemma vote_again:
  assumes unlocked: "\<not> isLocked p"
    and comma: "CHR '','' \<notin> set userId"
    and once: "\<forall>(l, v) \<in> set (tallyButtons (message p)).
                 multiple p \<or> l = buttonText \<or> count_list (split_js CHR '','' v) userId \<le> 1"
  shows "vote (vote p buttonText userId) buttonText userId = vote p buttonText userId"
proof -
  let ?f = "voteValue (multiple p) buttonText userId"
  let ?q = "p\<lparr>message := mapFrom2 ?f (message p)\<rparr>"
  let ?p' = "vote p buttonText userId"
  have p': "?p' = generateVoteResults ?q" using unlocked by (rule vote_unlocked)
  have fixed: "\<forall>(l, w) \<in> set (tallyButtons (message ?q)). ?f l w = w"
    using once comma by (auto simp: tallyButtons_mapFrom2 voteValue_idem)
  have secs: "\<forall>b \<in> set (generateResults ?q False). \<exists>t. b = Section t"
    using generateResults_sections by blast
  have "mapFrom2 ?f (message ?p') = message ?p'"
    using mapFrom2_after_results [OF fixed secs] by (simp add: p' generateVoteResults_def)
  then have "vote ?p' buttonText userId = generateVoteResults ?p'"
    using unlocked by (simp add: vote_unlocked)
  also have "\<dots> = ?p'" unfolding p' by (rule generateVoteResults_idem)
  finally show ?thesis .
qed

section \<open>The last option of a label\<close>

lemma count_list_distinct: "distinct xs \<Longrightarrow> x \<in> set xs \<Longrightarrow> count_list xs x = 1"
  by (induction xs) (auto simp: count_list_0_iff)

lemma votesFrom_last:
  assumes "bl = pre @ (k, v) # post" and "k \<notin> fst ` set post" and "k \<noteq> ''__proto__''"
  shows "map_of (votesFrom bl) k = Some v" and "count_list (ownKeys (votesFrom bl)) k = 1"
proof -
  show "map_of (votesFrom bl) k = Some v"
    unfolding votesFrom_putAll using assms by (rule map_of_putAll_last)
  have "distinct (ownKeys (votesFrom bl))"
    by (simp add: votesFrom_putAll distinct_ownKeys distinct_putAll)
  moreover have "fst ` set (votesFrom bl) = fst ` set bl - {''__proto__''}"
    by (simp add: votesFrom_putAll keys_putAll)
  then have "k \<in> set (ownKeys (votesFrom bl))"
    using assms by (auto simp: set_ownKeys)
  ultimately show "count_list (ownKeys (votesFrom bl)) k = 1" by (rule count_list_distinct)
qed

lemma votersOf_snoc_user:
  "CHR '','' \<notin> set userId \<Longrightarrow> votersOf (v @ '','' @ userId) = votersOf v @ [userId]"
  by (simp add: votersOf_def split_js_snoc_user)

section \<open>What a result line shows\<close>

lemma set_votes_put: "set (votes_put acc l v) \<subseteq> insert (l, v) (set acc)"
proof (cases "l = ''__proto__''")
  case True
  then show ?thesis by (auto simp: votes_put_def)
next
  case False
  have "set (AList.update l v acc) \<subseteq> insert (l, v) (set acc)"
    by (induction acc) auto
  with False show ?thesis by (simp add: votes_put_def)
qed

lemma set_putAll: "set (putAll bl acc) \<subseteq> set acc \<union> set bl"
proof (induction bl arbitrary: acc)
  case Nil
  show ?case by simp
next
  case (Cons b bl)
  obtain l v where b: "b = (l, v)" by (cases b)
  have "set (putAll (b # bl) acc) \<subseteq> set (votes_put acc l v) \<union> set bl"
    unfolding b putAll_simps by (rule Cons.IH)
  with set_votes_put [of acc l v] b show ?case by auto
qed

lemma set_votesFrom: "set (votesFrom bl) \<subseteq> set bl"
  using set_putAll [of bl "[]"] by (simp add: votesFrom_putAll)

lemma sublist_join_js: "x \<in> set xs \<Longrightarrow> sublist x (join_js sep xs)"
proof (induction sep xs rule: join_js.induct)
  case (3 sep y z zs)
  show ?case
  proof (cases "x = y")
    case True
    then show ?thesis by simp
  next
    case False
    with 3 have "sublist x (join_js sep (z # zs))" by simp
    then show ?thesis by (auto simp: sublist_append)
  qed
qed simp_all

lemma lineText_reveals:
  assumes "\<not> anon \<or> overrideAnon" and "u \<in> set users"
  shows "includes_js (lineText anon overrideAnon l users) (mention u)"
    and "includes_js (lineText anon overrideAnon l users) u"
proof -
  have "mention u \<in> set (map mention users)" using assms by simp
  then have "sublist (mention u) (join_js '','' (map mention users))" by (rule sublist_join_js)
  moreover have "lineText anon overrideAnon l users =
      (''*'' @ decimal (length users) @ ''* '' @ l @ guillemet) @ join_js '','' (map mention users)"
    using assms(1) by (simp add: lineText_def)
  then have "sublist (join_js '','' (map mention users)) (lineText anon overrideAnon l users)"
    by (metis sublist_append_leftI)
  ultimately show m: "includes_js (lineText anon overrideAnon l users) (mention u)"
    unfolding includes_js_def by (rule sublist_order.order_trans)
  have "sublist u (mention u)" unfolding mention_def by (metis sublist_appendI)
  with m show "includes_js (lineText anon overrideAnon l users) u"
    unfolding includes_js_def by (metis sublist_order.order_trans)
qed

section \<open>Moving a vote\<close>

lemma split_js_hd_voters: "split_js CHR '','' v = hd (split_js CHR '','' v) # votersOf v"
  by (cases "split_js CHR '','' v") (simp_all add: votersOf_def)

lemma voteValue_other_voters:
  assumes other: "l \<noteq> buttonText"
    and hd: "hd (split_js CHR '','' v) \<noteq> userId"
    and once: "count_list (split_js CHR '','' v) userId \<le> 1"
  shows "votersOf (voteValue False buttonText userId l v) = remove1 userId (votersOf v)"
    and "userId \<notin> set (votersOf (voteValue False buttonText userId l v))"
proof -
  let ?s = "split_js CHR '','' v"
  define h where "h = hd ?s"
  have s: "?s = h # votersOf v" unfolding h_def by (rule split_js_hd_voters)
  have h: "h \<noteq> userId" unfolding h_def by (rule hd)
  have "count_list (h # votersOf v) userId \<le> 1" using once unfolding s .
  then have once': "count_list (votersOf v) userId \<le> 1" using h by simp
  have eq: "votersOf (voteValue False buttonText userId l v) = remove1 userId (votersOf v)"
  proof (cases "userId \<in> set ?s")
    case True
    have r: "remove1 userId ?s = h # remove1 userId (votersOf v)" using h by (simp add: s)
    then have "remove1 userId ?s \<noteq> []" by simp
    then have sj: "split_js CHR '','' (join_js '','' (remove1 userId ?s)) = remove1 userId ?s"
      by (rule split_join_remove1)
    have "votersOf (join_js '','' (remove1 userId ?s))
        = tl (split_js CHR '','' (join_js '','' (remove1 userId ?s)))"
      by (rule votersOf_def)
    also have "\<dots> = tl (remove1 userId ?s)" by (simp only: sj)
    also have "\<dots> = remove1 userId (votersOf v)" by (simp only: r list.sel)
    finally have "votersOf (join_js '','' (remove1 userId ?s)) = remove1 userId (votersOf v)" .
    moreover have "voteValue False buttonText userId l v = join_js '','' (remove1 userId ?s)"
      using other True by (rule voteValue_other_single)
    ultimately show ?thesis by simp
  next
    case False
    then have "userId \<notin> set (votersOf v)" unfolding s by simp
    then have "remove1 userId (votersOf v) = votersOf v" by (rule remove1_idem)
    moreover have "voteValue False buttonText userId l v = v"
      using other False by (rule voteValue_other_absent)
    ultimately show ?thesis by simp
  qed
  then show "votersOf (voteValue False buttonText userId l v) = remove1 userId (votersOf v)" .
  show "userId \<notin> set (votersOf (voteValue False buttonText userId l v))"
    unfolding eq using once' by (rule notin_remove1_count)
qed

lemma voteValue_target_voters:
  assumes comma: "CHR '','' \<notin> set userId"
    and hd: "hd (split_js CHR '','' v) \<noteq> userId"
    and absent: "userId \<notin> set (votersOf v)"
  shows "voteValue multi buttonText userId buttonText v = v @ '','' @ userId"
    and "votersOf (v @ '','' @ userId) = votersOf v @ [userId]"
proof -
  have "set (split_js CHR '','' v) = insert (hd (split_js CHR '','' v)) (set (votersOf v))"
    by (metis list.simps(15) split_js_hd_voters)
  then have "userId \<notin> set (split_js CHR '','' v)"
    using hd absent by auto
  then show "voteValue multi buttonText userId buttonText v = v @ '','' @ userId"
    by (rule voteValue_target_new)
  show "votersOf (v @ '','' @ userId) = votersOf v @ [userId]"
    using comma by (rule votersOf_snoc_user)
qed

lemma filter_unique_key:
  assumes "distinct (map fst bl)" and "(k, v) \<in> set bl"
    and "\<forall>(l, w) \<in> set bl. P l w \<longleftrightarrow> l = k"
  shows "length (filter (\<lambda>(l, w). P l w) bl) = 1"
  using assms
proof (induction bl)
  case Nil
  then show ?case by simp
next
  case (Cons b bl)
  obtain l w where b: "b = (l, w)" by (cases b)
  show ?case
  proof (cases "l = k")
    case True
    with Cons.prems b have "k \<notin> fst ` set bl" by auto
    moreover have "P l' w' \<longleftrightarrow> l' = k" if "(l', w') \<in> set bl" for l' w'
      using Cons.prems(3) that by auto
    ultimately have "\<not> P l' w'" if "(l', w') \<in> set bl" for l' w'
      using that by force
    then have "filter (\<lambda>(l, w). P l w) bl = []"
      by (auto simp: filter_empty_conv)
    with True b Cons.prems(3) show ?thesis by simp
  next
    case False
    with Cons.prems b have "(k, v) \<in> set bl" by auto
    with Cons.prems have "length (filter (\<lambda>(l, w). P l w) bl) = 1" by (intro Cons.IH) auto
    with False b Cons.prems(3) show ?thesis by simp
  qed
qed

lemma in_optionLines:
  "(l, v) \<in> set bl \<Longrightarrow> votersOf v \<noteq> [] \<Longrightarrow>
     Section (lineText anon ov l (votersOf v)) \<in># optionLines anon ov bl"
  unfolding optionLines_def in_image_mset
  by (rule image_eqI [where x = "(l, v)"]) simp_all

section \<open>Locking a poll\<close>

text \<open>
  The blocks \<^verbatim>\<open>lockPoll\<close> makes of a message laid out as title, further blocks, control
  menu, divider and result lines decode as a locked poll.
\<close>

lemma lockPoll_openExample: "getBlocks (lockPoll openExample) = lockedExample"
  by code_simp

lemma unlock_lockedExample:
  "unlockpoll \<lparr>message = lockedExample, multiple = False, anonymous = False, isLocked = True\<rparr>
     = openExample"
  by code_simp

lemma lineText_not_lock: "lineText anon ov l users \<noteq> '':lock:''"
  by (simp add: lineText_def)

lemma slice_js_take: "0 \<le> e \<Longrightarrow> slice_js 0 e xs = take (nat e) xs"
  by (auto simp: slice_js_def Let_def min_def)

lemma slice_js_drop:
  "0 \<le> s \<Longrightarrow> int (length xs) \<le> e \<Longrightarrow> slice_js s e xs = drop (nat s) xs"
  by (auto simp: slice_js_def Let_def min_def)

lemma take_to_divider:
  "Divider \<notin> set post \<Longrightarrow>
     take (nat (getDividerId (pre @ Divider # post) + 1)) (pre @ Divider # post) = pre @ [Divider]"
  by (simp add: getDividerId_last nat_add_distrib)

lemma lockPoll_message:
  assumes "msg = Section t # pre @ b # Divider # post" and "Divider \<notin> set post"
    and "message p = msg"
  shows "message (lockPoll p) =
           Section t # pre @ getDynamicSelect (p\<lparr>isLocked := True\<rparr>) @ Divider #
             generateResults (p\<lparr>isLocked := True\<rparr>) False"
proof -
  let ?q = "p\<lparr>isLocked := True\<rparr>"
  let ?R = "generateResults ?q False"
  have d: "getDividerId msg = int (length pre) + 2"
    using getDividerId_last [OF assms(2), of "Section t # pre @ [b]"] assms(1) by simp
  have "take (nat (getDividerId msg + 1)) msg = Section t # pre @ [b, Divider]"
    using take_to_divider [OF assms(2), of "Section t # pre @ [b]"] assms(1) by simp
  then have m: "message (generateVoteResults ?q) = Section t # pre @ b # Divider # ?R"
    using assms(3) by (simp add: generateVoteResults_def)
  have nd: "Divider \<notin> set ?R" by (rule generateResults_no_divider)
  have d': "getDividerId (Section t # pre @ b # Divider # ?R) = int (length pre) + 2"
    using getDividerId_last [OF nd, of "Section t # pre @ [b]"] by simp
  have sel: "getDynamicSelect (generateVoteResults ?q) = getDynamicSelect ?q"
    by (simp add: getDynamicSelect_def)
  let ?m = "Section t # pre @ b # Divider # ?R"
  have "slice_js 0 (int (length pre) + 2 - 1) ?m = take (nat (int (length pre) + 2 - 1)) ?m"
    by (rule slice_js_take) simp
  then have s1: "slice_js 0 (int (length pre) + 2 - 1) ?m = Section t # pre"
    by (simp add: nat_add_distrib)
  have "slice_js (int (length pre) + 2) (int (length ?m)) ?m = drop (nat (int (length pre) + 2)) ?m"
    by (rule slice_js_drop) simp_all
  then have s2: "slice_js (int (length pre) + 2) (int (length ?m)) ?m = Divider # ?R"
    by (simp add: nat_add_distrib)
  show ?thesis
    unfolding lockPoll_def Let_def m d' sel s1 s2 by simp
qed

lemma lockPoll_decodes_locked:
  assumes "message p = Section t # pre @ b # Divider # post" and "Divider \<notin> set post"
  shows "map_sum id isLocked (Poll_new (getBlocks (lockPoll p))) = Inr True"
proof -
  let ?q = "p\<lparr>isLocked := True\<rparr>"
  let ?R = "generateResults ?q False"
  obtain R' where R: "?R = Section '':lock:'' # R'"
    by (simp add: generateResults_lines)
  have nd: "Divider \<notin> set ?R" by (rule generateResults_no_divider)
  let ?msg = "Section t # pre @ getDynamicSelect ?q @ Divider # ?R"
  have m: "message (lockPoll p) = ?msg"
    using assms by (intro lockPoll_message [OF refl]) simp_all
  have "?msg = (Section t # pre @ getDynamicSelect ?q) @ Divider # ?R" by simp
  then have d: "getDividerId ?msg = int (length pre) + 2"
    using getDividerId_last [OF nd, of "Section t # pre @ getDynamicSelect ?q"]
    by (simp add: getDynamicSelect_def)
  have "textOf ?msg (nat (getDividerId ?msg + 1)) = Inr '':lock:''"
    unfolding d by (simp add: textOf_def nth_append nat_add_distrib getDynamicSelect_def R)
  moreover have "int (length ?msg) - 1 \<noteq> getDividerId ?msg"
    unfolding d by (simp add: getDynamicSelect_def R)
  ultimately show ?thesis
    unfolding getBlocks_def m
    by (simp add: Poll_new_def checkIfMsgContains_def getTitleFromMsg_def textOf_def)
qed

section \<open>Decoding the blocks of a vote\<close>

text \<open>
  The blocks an unlocked poll with a divider has after a vote decode to the poll itself:
  nothing is lost between two clicks.
\<close>

lemma Poll_new_Inr:
  "Poll_new msg = Inr p \<Longrightarrow>
     \<exists>t rest. msg = Section t # rest \<and> message p = msg
       \<and> multiple p = includes_js t ''(Multiple Answers)''
       \<and> anonymous p = includes_js t ''(Anonymous)''"
  by (cases msg; cases "hd msg")
    (auto simp: Poll_new_def checkIfMsgContains_def getTitleFromMsg_def textOf_def
      split: sum.splits if_splits)

lemma generateResults_unlocked_lines:
  "\<not> isLocked p \<Longrightarrow> b \<in> set (generateResults p overrideAnon) \<Longrightarrow>
     \<exists>l users. b = Section (lineText (anonymous p) overrideAnon l users)"
  by (auto simp: generateResults_lines set_map_filter buildVoteTally_eq
      split: option.splits if_splits)

lemma Poll_new_after_vote:
  assumes dec: "Poll_new blocks = Inr p" and unlocked: "\<not> isLocked p"
    and divider: "Divider \<in> set blocks"
  shows "Poll_new (getBlocks (vote p buttonText userId)) = Inr (vote p buttonText userId)"
proof -
  let ?f = "voteValue (multiple p) buttonText userId"
  let ?q = "p\<lparr>message := mapFrom2 ?f (message p)\<rparr>"
  let ?R = "generateResults ?q False"
  let ?p' = "vote p buttonText userId"
  from dec obtain t rest where blocks: "blocks = Section t # rest" and msg: "message p = blocks"
    and flags: "multiple p = includes_js t ''(Multiple Answers)''"
      "anonymous p = includes_js t ''(Anonymous)''"
    using Poll_new_Inr by blast
  from divider blocks obtain pre post where rest: "rest = pre @ Divider # post"
    and post: "Divider \<notin> set post"
    by (auto dest: split_list_last)
  have nd: "Divider \<notin> set ?R" by (rule generateResults_no_divider)
  have M1: "mapFrom2 ?f blocks = Section t # tl (mapFrom2 ?f blocks)"
    unfolding blocks by (cases rest) (simp_all add: mapFrom2_def)
  have d: "getDividerId (mapFrom2 ?f blocks) = int (length pre) + 1"
    using getDividerId_last [OF post, of "Section t # pre"] by (simp add: blocks rest)
  obtain pre1 post1 where M1': "mapFrom2 ?f blocks = pre1 @ Divider # post1"
    and post1: "Divider \<notin> set post1" and len1: "int (length pre1) = int (length pre) + 1"
    using d by (cases "mapFrom2 ?f blocks" rule: getDividerId_cases) auto
  from M1 M1' len1 obtain pre2 where pre1: "pre1 = Section t # pre2"
    by (cases pre1) auto
  have p': "message ?p' = Section t # pre2 @ Divider # ?R"
    using unlocked take_to_divider [OF post1, of pre1]
    by (simp add: vote_unlocked generateVoteResults_def msg M1' pre1)
  have fields: "?p' = \<lparr>message = Section t # pre2 @ Divider # ?R,
      multiple = includes_js t ''(Multiple Answers)'',
      anonymous = includes_js t ''(Anonymous)'', isLocked = False\<rparr>"
    using p' flags unlocked by (intro poll.equality) simp_all
  have d': "getDividerId (Section t # pre2 @ Divider # ?R) = int (length pre2) + 1"
    using getDividerId_last [OF nd, of "Section t # pre2"] by simp
  have "Poll_new (Section t # pre2 @ Divider # ?R) =
      Inr \<lparr>message = Section t # pre2 @ Divider # ?R,
           multiple = includes_js t ''(Multiple Answers)'',
           anonymous = includes_js t ''(Anonymous)'', isLocked = False\<rparr>"
  proof (cases ?R)
    case Nil
    then show ?thesis
      unfolding Poll_new_def d' by (simp add: checkIfMsgContains_def getTitleFromMsg_def textOf_def)
  next
    case (Cons b R')
    then have "b \<in> set ?R" by simp
    then obtain l users where "b = Section (lineText (anonymous ?q) False l users)"
      using generateResults_unlocked_lines [of ?q b False] unlocked by auto
    then have "textOf (Section t # pre2 @ Divider # ?R) (nat (int (length pre2) + 1 + 1))
        = Inr (lineText (anonymous ?q) False l users)"
      unfolding Cons by (simp add: textOf_def nth_append nat_add_distrib)
    then show ?thesis
      unfolding Poll_new_def d' using Cons
      by (simp add: checkIfMsgContains_def getTitleFromMsg_def textOf_def lineText_not_lock)
  qed
  then show ?thesis unfolding getBlocks_def p' unfolding fields by simp
qed

section \<open>Resetting a vote\<close>

text \<open>
  A reset always builds the result section again. In a multiple-choice poll the callback
  never leaves a loop, so the user is taken off every option.
\<close>

lemma resetCallback_multiple:
  "resetCallback True userId s l v = (resetValue userId v, s, False)"
  by (simp add: resetCallback_def resetValue_def Let_def)

lemma resetValue_eq:
  "resetValue userId v =
     (if userId \<in> set (split_js CHR '','' v)
      then join_js '','' (remove1 userId (split_js CHR '','' v)) else v)"
  by (simp add: resetValue_def resetCallback_def Let_def indexOf_none splice1_indexOf)

lemma resetVote_regenerates:
  "resultSection (message (resetVote p userId)) = generateResults (resetVote p userId) False"
  unfolding resetVote_def
  by (simp only: generateVoteResults_resultSection generateVoteResults_results)

lemma resetVote_multiple:
  assumes "multiple p"
  shows "tallyButtons (message (resetVote p userId)) =
           map (\<lambda>(l, v). (l, resetValue userId v)) (tallyButtons (message p))"
  using assms
  by (simp add: resetVote_def processButtons_all_map [OF resetCallback_multiple]
      generateVoteResults_tallyButtons tallyButtons_mapFrom2)

lemma resetValue_voters:
  assumes hd: "hd (split_js CHR '','' v) \<noteq> userId"
    and once: "count_list (split_js CHR '','' v) userId \<le> 1"
  shows "votersOf (resetValue userId v) = remove1 userId (votersOf v)"
    and "userId \<notin> set (votersOf (resetValue userId v))"
proof -
  have "resetValue userId v = voteValue False (CHR ''x'' # l) userId l v" for l
    by (simp add: resetValue_eq voteValue_eq join_split_js)
  then show "votersOf (resetValue userId v) = remove1 userId (votersOf v)"
    and "userId \<notin> set (votersOf (resetValue userId v))"
    using voteValue_other_voters [OF _ hd once, of "[]" "''x''"] by simp_all
qed

section \<open>Locked polls\<close>

lemma Poll_new_lockedExample:
  "Poll_new lockedExample =
     Inr \<lparr>message = lockedExample, multiple = False, anonymous = False, isLocked = True\<rparr>"
  by code_simp

text \<open>
  Claim C3. A poll that decodes as locked takes no vote: for every option label and every
  user, \<^verbatim>\<open>vote\<close> returns the poll as it was, so the whole block sequence is the decoded
  one (no votes string is changed, and the result section is not built again). The
  blocks that \<^verbatim>\<open>lockPoll\<close> produces decode as locked (\<open>lockPoll_decodes_locked\<close>).
\<close>

theorem vote_locked_unchanged:
  assumes "Poll_new blocks = Inr p" and "isLocked p"
  shows "vote p buttonText userId = p \<and> getBlocks (vote p buttonText userId) = blocks"
  using assms by (simp add: vote_def getBlocks_def Poll_new_message)

theorem vote_locked_unchanged_witness:
  "getBlocks (lockPoll openExample) = lockedExample
   \<and> Poll_new lockedExample =
       Inr \<lparr>message = lockedExample, multiple = False, anonymous = False, isLocked = True\<rparr>
   \<and> getBlocks (vote \<lparr>message = lockedExample, multiple = False, anonymous = False,
         isLocked = True\<rparr> ''B'' ''U2'') = lockedExample"
  using vote_locked_unchanged [OF Poll_new_lockedExample, of "''B''" "''U2''"]
    Poll_new_lockedExample lockPoll_openExample
  by (simp add: getBlocks_def)

section \<open>When decoding fails\<close>

text \<open>
  Claim C9, as the code has it. The constructor validates nothing and there is no
  \<^verbatim>\<open>MalformedPollError\<close>: it fails, with the TypeError of reading \<^verbatim>\<open>text\<close> off a block
  that has none, exactly when the message does not start with a block carrying text, or
  when a block follows the last divider and carries no text. The block at position 1 is
  not looked at, and a message without a divider decodes. A message laid out as title,
  author context, any option blocks, divider and result lines always decodes.
\<close>

theorem Poll_new_fails_iff:
  "(Poll_new msg = Inl TypeError \<longleftrightarrow>
      (\<forall>t rest. msg \<noteq> Section t # rest) \<or>
      (\<exists>pre b post. msg = pre @ Divider # b # post \<and> Divider \<notin> set (b # post)
          \<and> (\<forall>t. b \<noteq> Section t)))
   \<and> Poll_new (Section title # Context author # options @ Divider # map Section results)
        \<noteq> Inl TypeError"
proof (intro conjI)
  have title: "textOf msg 0 = Inl TypeError \<longleftrightarrow> (\<forall>t rest. msg \<noteq> Section t # rest)"
    by (cases msg) (auto simp: textOf_Inl)
  have after: "(int (length msg) - 1 \<noteq> getDividerId msg
        \<and> textOf msg (nat (getDividerId msg + 1)) = Inl TypeError) \<longleftrightarrow>
      (\<exists>pre b post. msg = pre @ Divider # b # post \<and> Divider \<notin> set (b # post)
          \<and> (\<forall>t. b \<noteq> Section t))" if "textOf msg 0 \<noteq> Inl TypeError"
  proof (cases "Divider \<in> set msg")
    case False
    then have "getDividerId msg = -1" by (rule getDividerId_none)
    with that False show ?thesis by auto
  next
    case True
    then obtain pre post where msg: "msg = pre @ Divider # post" and post: "Divider \<notin> set post"
      by (auto dest: split_list_last)
    then have d: "getDividerId msg = int (length pre)" by (simp add: getDividerId_last)
    have uniq: "pre' = pre \<and> post' = post"
      if "msg = pre' @ Divider # post'" "Divider \<notin> set post'" for pre' post'
    proof -
      have "getDividerId msg = int (length pre')" using that by (simp add: getDividerId_last)
      with d have "length pre' = length pre" by simp
      with that(1) msg show ?thesis by auto
    qed
    show ?thesis
    proof (cases post)
      case Nil
      have "\<not> (\<exists>pre' b post'. msg = pre' @ Divider # b # post' \<and> Divider \<notin> set (b # post'))"
        using uniq Nil by blast
      with msg d Nil show ?thesis by auto
    next
      case (Cons b post')
      have "textOf msg (nat (getDividerId msg + 1)) = Inl TypeError \<longleftrightarrow> (\<forall>t. b \<noteq> Section t)"
        using msg d Cons by (auto simp: textOf_Inl nth_append nat_add_distrib)
      moreover have "int (length msg) - 1 \<noteq> getDividerId msg" using msg d Cons by simp
      moreover have "b' = b" if "msg = pre' @ Divider # b' # post''" "Divider \<notin> set (b' # post'')"
        for pre' b' post'' using uniq [OF that] Cons by simp
      ultimately show ?thesis using msg Cons post by blast
    qed
  qed
  show "Poll_new msg = Inl TypeError \<longleftrightarrow>
      (\<forall>t rest. msg \<noteq> Section t # rest) \<or>
      (\<exists>pre b post. msg = pre @ Divider # b # post \<and> Divider \<notin> set (b # post)
          \<and> (\<forall>t. b \<noteq> Section t))"
    using title after Poll_new_Inl [of msg TypeError] by blast
next
  let ?msg = "Section title # Context author # options @ Divider # map Section results"
  have nodiv: "Divider \<notin> set (map Section results)" by auto
  have "?msg = (Section title # Context author # options) @ Divider # map Section results"
    by simp
  then have d: "getDividerId ?msg = int (length options) + 2"
    using getDividerId_last [OF nodiv, of "Section title # Context author # options"] by simp
  have "textOf ?msg (nat (getDividerId ?msg + 1)) \<noteq> Inl TypeError"
    if "int (length ?msg) - 1 \<noteq> getDividerId ?msg"
  proof -
    from that d have "results \<noteq> []" by auto
    then obtain r rs where "results = r # rs" by (cases results) auto
    then show ?thesis unfolding d by (simp add: textOf_def nth_append nat_add_distrib)
  qed
  moreover have "textOf ?msg 0 \<noteq> Inl TypeError" by (simp add: textOf_def)
  ultimately show "Poll_new ?msg \<noteq> Inl TypeError"
    using Poll_new_Inl [of ?msg TypeError] by blast
qed

text \<open>
  The claim as stated fails: a message whose position 1 is no author context and that has
  no divider decodes without an error.
\<close>

theorem Poll_new_unchecked_layout:
  "getDividerId [Section ''Q'', OtherBlock] = -1
   \<and> Poll_new [Section ''Q'', OtherBlock] =
       Inr \<lparr>message = [Section ''Q'', OtherBlock], multiple = False, anonymous = False,
            isLocked = False\<rparr>"
  by code_simp

section \<open>Flags of a fresh poll\<close>

lemma sublist_append_no_span:
  assumes z: "\<not> sublist m z"
    and span: "list_all (\<lambda>s. s = [] \<or> \<not> prefix s z) (suffixes m)"
  shows "sublist m (q @ z) \<longleftrightarrow> sublist m q"
proof
  assume "sublist m (q @ z)"
  then consider "sublist m q" | "sublist m z"
    | xs1 xs2 where "m = xs1 @ xs2" "suffix xs1 q" "prefix xs2 z"
    by (auto simp: sublist_append)
  then show "sublist m q"
  proof cases
    case 3
    then have "xs2 \<in> set (suffixes m)" by (simp add: in_set_suffixes suffix_def)
    with span 3 have "xs2 = []" by (auto simp: list_all_iff)
    with 3 show ?thesis by (auto simp: sublist_altdef)
  qed (use z in auto)
next
  assume "sublist m q"
  then show "sublist m (q @ z)" by (auto simp: sublist_append)
qed

lemma multiple_in_anon_suffix:
  "sublist ''(Multiple Answers)'' (q @ '' *(Anonymous)* '') \<longleftrightarrow> sublist ''(Multiple Answers)'' q"
  by (rule sublist_append_no_span; code_simp)

lemma anon_in_multiple_suffix:
  "sublist ''(Anonymous)'' (q @ '' *(Multiple Answers)* '') \<longleftrightarrow> sublist ''(Anonymous)'' q"
  by (rule sublist_append_no_span; code_simp)

lemma multiple_marker_sub: "sublist ''(Multiple Answers)'' (q @ '' *(Multiple Answers)* '' @ r)"
proof -
  have "q @ '' *(Multiple Answers)* '' @ r = (q @ '' *'') @ ''(Multiple Answers)'' @ (''* '' @ r)"
    by simp
  then show ?thesis by (metis sublist_appendI)
qed

lemma anon_marker_sub: "sublist ''(Anonymous)'' (q @ r @ '' *(Anonymous)* '')"
proof -
  have "q @ r @ '' *(Anonymous)* '' = (q @ r @ '' *'') @ ''(Anonymous)'' @ ''* ''"
    by simp
  then show ?thesis by (metis sublist_appendI)
qed

lemma titleText_flagged:
  "flagLine (optionTokens (parameters ! 0)) \<Longrightarrow>
     titleText parameters =
       secondLine parameters
         @ appendIfMatching (optionTokens (parameters ! 0)) ''multiple'' '' *(Multiple Answers)* ''
         @ appendIfMatching (optionTokens (parameters ! 0)) ''anon'' '' *(Anonymous)* ''"
  by (simp add: titleText_def Let_def)

lemma titleText_plain:
  "\<not> flagLine (optionTokens (parameters ! 0)) \<Longrightarrow> titleText parameters = parameters ! 0"
  by (simp add: titleText_def Let_def)

lemma includes_titleText_multiple:
  "includes_js (titleText parameters) ''(Multiple Answers)'' \<longleftrightarrow>
     flagGiven ''multiple'' (optionTokens (parameters ! 0))
     \<or> includes_js (questionText parameters) ''(Multiple Answers)''"
proof (cases "flagLine (optionTokens (parameters ! 0))")
  case False
  then show ?thesis by (simp add: titleText_plain questionText_def flagGiven_def)
next
  case True
  let ?tokens = "optionTokens (parameters ! 0)"
  note tt = titleText_flagged [OF True]
  have q: "questionText parameters = secondLine parameters"
    using True by (simp add: questionText_def)
  show ?thesis
  proof (cases "flagGiven ''multiple'' ?tokens")
    case given: True
    then have "appendIfMatching ?tokens ''multiple'' '' *(Multiple Answers)* '' = '' *(Multiple Answers)* ''"
      by (simp add: appendIfMatching_def flagGiven_def)
    then have "sublist ''(Multiple Answers)'' (titleText parameters)"
      unfolding tt using multiple_marker_sub by simp
    with given show ?thesis by (simp add: includes_js_def)
  next
    case notgiven: False
    with True have m: "appendIfMatching ?tokens ''multiple'' '' *(Multiple Answers)* '' = []"
      and a: "appendIfMatching ?tokens ''anon'' '' *(Anonymous)* '' = '' *(Anonymous)* ''"
      by (auto simp: appendIfMatching_def flagGiven_def flagLine_def)
    have "titleText parameters = secondLine parameters @ '' *(Anonymous)* ''"
      unfolding tt m a by simp
    with notgiven q show ?thesis
      by (simp add: includes_js_def multiple_in_anon_suffix)
  qed
qed

lemma includes_titleText_anon:
  "includes_js (titleText parameters) ''(Anonymous)'' \<longleftrightarrow>
     flagGiven ''anon'' (optionTokens (parameters ! 0))
     \<or> includes_js (questionText parameters) ''(Anonymous)''"
proof (cases "flagLine (optionTokens (parameters ! 0))")
  case False
  then show ?thesis by (simp add: titleText_plain questionText_def flagGiven_def)
next
  case True
  let ?tokens = "optionTokens (parameters ! 0)"
  note tt = titleText_flagged [OF True]
  have q: "questionText parameters = secondLine parameters"
    using True by (simp add: questionText_def)
  show ?thesis
  proof (cases "flagGiven ''anon'' ?tokens")
    case given: True
    then have "appendIfMatching ?tokens ''anon'' '' *(Anonymous)* '' = '' *(Anonymous)* ''"
      by (simp add: appendIfMatching_def flagGiven_def)
    then have "sublist ''(Anonymous)'' (titleText parameters)"
      unfolding tt using anon_marker_sub by simp
    with given show ?thesis by (simp add: includes_js_def)
  next
    case notgiven: False
    with True have a: "appendIfMatching ?tokens ''anon'' '' *(Anonymous)* '' = []"
      and m: "appendIfMatching ?tokens ''multiple'' '' *(Multiple Answers)* '' = '' *(Multiple Answers)* ''"
      by (auto simp: appendIfMatching_def flagGiven_def flagLine_def)
    have "titleText parameters = secondLine parameters @ '' *(Multiple Answers)* ''"
      unfolding tt m a by simp
    with notgiven q show ?thesis
      by (simp add: includes_js_def anon_in_multiple_suffix)
  qed
qed

lemma Poll_new_ends_with_divider:
  "Poll_new (Section t # rest @ [Divider]) =
     Inr \<lparr>message = Section t # rest @ [Divider],
          multiple = includes_js t ''(Multiple Answers)'',
          anonymous = includes_js t ''(Anonymous)'', isLocked = False\<rparr>"
proof -
  have "getDividerId ((Section t # rest) @ Divider # []) = int (length (Section t # rest))"
    by (rule getDividerId_last) simp
  then show ?thesis
    by (simp add: Poll_new_def checkIfMsgContains_def getTitleFromMsg_def textOf_def)
qed

lemma slashCreateBlocks_shape:
  "slashCreateBlocks author parameters =
     Section (titleText parameters) #
       (Context [''Asked by: '' @ author] #
          buildVoteOptions parameters (if titleText parameters = parameters ! 0 then 1 else 2)
          @ [Actions [controlMenu]]) @ [Divider]"
  by (simp add: slashCreateBlocks_def Let_def buildSectionBlock_def buildContextBlock_def)

text \<open>
  Claim C1, as the code has it. The flags are read back from the title text, so for every
  author and every non-empty list of lines the created poll decodes with
  \<open>multiple\<close> (\<open>anonymous\<close>) true exactly when the flag token was given or the question text
  itself contains the marker \<open>(Multiple Answers)\<close> (\<open>(Anonymous)\<close>), and with
  \<open>locked\<close> false.
\<close>

theorem slashCreate_decodes_flags:
  assumes "parameters \<noteq> []"
  shows "slashCreate author parameters =
     Inr \<lparr>message = slashCreateBlocks author parameters,
          multiple = (flagGiven ''multiple'' (optionTokens (parameters ! 0))
                      \<or> includes_js (questionText parameters) ''(Multiple Answers)''),
          anonymous = (flagGiven ''anon'' (optionTokens (parameters ! 0))
                      \<or> includes_js (questionText parameters) ''(Anonymous)''),
          isLocked = False\<rparr>"
  using assms
  unfolding slashCreate_def slashCreateBlocks_shape Poll_new_ends_with_divider
  by (simp add: includes_titleText_multiple includes_titleText_anon)

lemma flagGiven_example:
  "flagGiven ''multiple'' (optionTokens ([''anon Multiple'', ''Lunch?'', ''Pizza''] ! 0))
   \<and> flagGiven ''anon'' (optionTokens ([''anon Multiple'', ''Lunch?'', ''Pizza''] ! 0))"
  by code_simp

theorem slashCreate_decodes_flags_witness:
  "[''anon Multiple'', ''Lunch?'', ''Pizza''] \<noteq> []
   \<and> slashCreate ''<@U1>'' [''anon Multiple'', ''Lunch?'', ''Pizza''] =
       Inr \<lparr>message = slashCreateBlocks ''<@U1>'' [''anon Multiple'', ''Lunch?'', ''Pizza''],
            multiple = True, anonymous = True, isLocked = False\<rparr>"
  using slashCreate_decodes_flags [of "[''anon Multiple'', ''Lunch?'', ''Pizza'']" "''<@U1>''"]
    flagGiven_example
  by simp

text \<open>
  The claim as stated fails: line 0 starts with no flag token, and the poll decodes as a
  multiple-choice poll because the question contains the marker.
\<close>

theorem slashCreate_marker_in_question:
  "\<not> flagLine (optionTokens ''Vote (Multiple Answers) now'')
   \<and> \<not> flagGiven ''multiple'' (optionTokens ''Vote (Multiple Answers) now'')
   \<and> slashCreate ''<@U1>'' [''Vote (Multiple Answers) now'', ''A''] =
       Inr \<lparr>message =
              [Section ''Vote (Multiple Answers) now'', Context [''Asked by: <@U1>''],
               Actions [Button ''A'' '' ''], Actions [controlMenu], Divider],
            multiple = True, anonymous = False, isLocked = False\<rparr>"
  by code_simp

section \<open>One result line for every option with a voter\<close>

text \<open>
  Claim C7, as the code has it. The tally is keyed by label. When the options before the
  divider carry pairwise distinct labels, none of them \<open>__proto__\<close>, the result section
  is, for a locked poll, the lock marker first, and then exactly one line for every
  option with at least one voter, none for an option without voters. The line of an
  option is \<^verbatim>\<open>*<count>* <label> \<close>\<open>\<guillemotright>\<close>\<^verbatim>\<open> <names>\<close>, where the names are the voters, each
  written \<^verbatim>\<open><@id>\<close>, joined with commas, when the poll is not anonymous or the identities
  are revealed, and \<^verbatim>\<open>~HIDDEN~\<close> otherwise (see \<^const>\<open>lineText\<close> and
  \<^const>\<open>optionLines\<close>).
\<close>

theorem generateResults_one_line_per_option:
  assumes "distinct (map fst (tallyButtons (message p)))"
    and "''__proto__'' \<notin> fst ` set (tallyButtons (message p))"
  shows "\<exists>lines.
           generateResults p overrideAnon
             = (if isLocked p then [Section '':lock:''] else []) @ lines
           \<and> mset lines
               = optionLines (anonymous p) overrideAnon (tallyButtons (message p))"
proof (intro exI conjI)
  show "generateResults p overrideAnon =
      (if isLocked p then [Section '':lock:''] else [])
        @ List.map_filter
            (buildVoteTally (anonymous p) overrideAnon (votesFrom (tallyButtons (message p))))
            (ownKeys (votesFrom (tallyButtons (message p))))"
    by (rule generateResults_lines)
  show "mset (List.map_filter
        (buildVoteTally (anonymous p) overrideAnon (votesFrom (tallyButtons (message p))))
        (ownKeys (votesFrom (tallyButtons (message p)))))
      = optionLines (anonymous p) overrideAnon (tallyButtons (message p))"
    using assms by (simp add: votesFrom_distinct map_filter_lines_distinct)
qed

lemma lockedPoll_values:
  "tallyButtons (message lockedPoll) = [(''A'', '' ,U1''), (''B'', '' '')]
   \<and> votersOf '' ,U1'' = [''U1''] \<and> votersOf '' '' = []
   \<and> lineText False False ''A'' [''U1''] = ''*1* A'' @ guillemet @ ''<@U1>''"
  by code_simp

theorem generateResults_one_line_per_option_witness:
  "distinct (map fst (tallyButtons (message lockedPoll)))
   \<and> ''__proto__'' \<notin> fst ` set (tallyButtons (message lockedPoll))
   \<and> isLocked lockedPoll
   \<and> generateResults lockedPoll False =
       [Section '':lock:'', Section (''*1* A'' @ guillemet @ ''<@U1>'')]"
proof -
  note ex = lockedPoll_values
  have tb: "tallyButtons (message lockedPoll) = [(''A'', '' ,U1''), (''B'', '' '')]"
    using ex by blast
  have d: "distinct (map fst (tallyButtons (message lockedPoll)))"
    and n: "''__proto__'' \<notin> fst ` set (tallyButtons (message lockedPoll))"
    unfolding tb by simp_all
  have l: "isLocked lockedPoll" and a: "anonymous lockedPoll = False"
    by (simp_all add: lockedPoll_def)
  from generateResults_one_line_per_option [OF d n, of False]
  obtain lines where g: "generateResults lockedPoll False = [Section '':lock:''] @ lines"
    and m: "mset lines = optionLines False False [(''A'', '' ,U1''), (''B'', '' '')]"
    unfolding tb a using l by auto
  have "optionLines False False [(''A'', '' ,U1''), (''B'', '' '')]
      = {#Section (''*1* A'' @ guillemet @ ''<@U1>'')#}"
    using ex by (simp add: optionLines_def)
  with m have "lines = [Section (''*1* A'' @ guillemet @ ''<@U1>'')]" by simp
  with g have "generateResults lockedPoll False =
      [Section '':lock:'', Section (''*1* A'' @ guillemet @ ''<@U1>'')]" by simp
  with d n l show ?thesis by blast
qed

text \<open>
  The claim as stated fails when options carry the same label. In the single-choice poll
  \<open>Q / A / A / B / C / A\<close>, \<open>U1\<close> votes for \<open>A\<close> and then resets the vote: the reset takes
  \<open>U1\<close> off the first option of each actions block, so the second option \<open>A\<close> keeps its
  voter. The tally reads the key \<open>A\<close> from the last option \<open>A\<close>, which has no voter, and
  no line at all is emitted, with or without the identities revealed.
\<close>

theorem generateResults_same_label_no_line:
  "applyVote threeSameBlocks ''A'' ''U1'' =
     Inr [Section ''Q'', Context [''Asked by: <@U9>''],
          Actions [Button ''A'' '' ,U1'', Button ''A'' '' ,U1'', Button ''B'' '' '',
                   Button ''C'' '' ''],
          Actions [Button ''A'' '' ,U1''],
          Actions [controlMenu], Divider,
          Section (''*1* A'' @ guillemet @ ''<@U1>'')]
   \<and> applyReset
         [Section ''Q'', Context [''Asked by: <@U9>''],
          Actions [Button ''A'' '' ,U1'', Button ''A'' '' ,U1'', Button ''B'' '' '',
                   Button ''C'' '' ''],
          Actions [Button ''A'' '' ,U1''],
          Actions [controlMenu], Divider,
          Section (''*1* A'' @ guillemet @ ''<@U1>'')] ''U1'' =
       Inr [Section ''Q'', Context [''Asked by: <@U9>''],
            Actions [Button ''A'' '' '', Button ''A'' '' ,U1'', Button ''B'' '' '',
                     Button ''C'' '' ''],
            Actions [Button ''A'' '' ''],
            Actions [controlMenu], Divider]
   \<and> votersOf '' ,U1'' = [''U1'']
   \<and> generateResults
         \<lparr>message =
            [Section ''Q'', Context [''Asked by: <@U9>''],
             Actions [Button ''A'' '' '', Button ''A'' '' ,U1'', Button ''B'' '' '',
                      Button ''C'' '' ''],
             Actions [Button ''A'' '' ''],
             Actions [controlMenu], Divider],
          multiple = False, anonymous = False, isLocked = False\<rparr> False = []
   \<and> generateResults
         \<lparr>message =
            [Section ''Q'', Context [''Asked by: <@U9>''],
             Actions [Button ''A'' '' '', Button ''A'' '' ,U1'', Button ''B'' '' '',
                      Button ''C'' '' ''],
             Actions [Button ''A'' '' ''],
             Actions [controlMenu], Divider],
          multiple = False, anonymous = False, isLocked = False\<rparr> True = []"
  by code_simp

text \<open>The poll is one that \<^verbatim>\<open>slashCreate\<close> builds.\<close>

lemma threeSameBlocks_created:
  "map_sum id getBlocks (slashCreate ''<@U9>'' [''Q'', ''A'', ''A'', ''B'', ''C'', ''A''])
     = Inr threeSameBlocks"
  by code_simp

section \<open>Voting twice for the same option\<close>

text \<open>
  Claim C8. In an unlocked single-choice poll, voting a second time with the same user and
  the same label changes nothing: the block sequence after the second call is the one
  after the first, and on every option with that label the user stands exactly once (no
  duplicate, no toggle-off). The poll is one of the data model: the user identifier
  contains no comma, and occurs at most once in the votes string of each option.
\<close>

theorem vote_twice_same:
  assumes unlocked: "\<not> isLocked p" and single: "\<not> multiple p"
    and comma: "CHR '','' \<notin> set userId"
    and once: "\<forall>(l, v) \<in> set (tallyButtons (message p)).
                 count_list (split_js CHR '','' v) userId \<le> 1"
  shows "getBlocks (vote (vote p buttonText userId) buttonText userId)
           = getBlocks (vote p buttonText userId)
         \<and> (\<forall>(l, w) \<in> set (tallyButtons (message (vote p buttonText userId))).
               l = buttonText \<longrightarrow> count_list (split_js CHR '','' w) userId = 1)"
proof
  have "vote (vote p buttonText userId) buttonText userId = vote p buttonText userId"
    using unlocked comma once by (intro vote_again) auto
  then show "getBlocks (vote (vote p buttonText userId) buttonText userId)
      = getBlocks (vote p buttonText userId)" by simp
  show "\<forall>(l, w) \<in> set (tallyButtons (message (vote p buttonText userId))).
          l = buttonText \<longrightarrow> count_list (split_js CHR '','' w) userId = 1"
    using once comma unlocked by (auto simp: vote_tallyButtons voteValue_target_count)
qed

lemma tallyExample_once:
  "list_all (\<lambda>(l, v). count_list (split_js CHR '','' v) ''U1'' \<le> 1)
     (tallyButtons (message tallyExample))"
  by code_simp

lemma tallyExample_vote_B:
  "getBlocks (vote tallyExample ''B'' ''U1'') =
     [Section ''Q'', Context [''Asked by: <@U1>''],
      Actions [Button ''A'' '' ,U2'', Button ''B'' '' ,U1'', Button ''C'' '' ,U3''],
      Actions [controlMenu], Divider,
      Section (''*1* A'' @ guillemet @ ''<@U2>''), Section (''*1* B'' @ guillemet @ ''<@U1>''),
      Section (''*1* C'' @ guillemet @ ''<@U3>'')]"
  by code_simp

theorem vote_twice_same_witness:
  "\<not> isLocked tallyExample \<and> \<not> multiple tallyExample \<and> CHR '','' \<notin> set ''U1''
   \<and> list_all (\<lambda>(l, v). count_list (split_js CHR '','' v) ''U1'' \<le> 1)
        (tallyButtons (message tallyExample))
   \<and> getBlocks (vote (vote tallyExample ''B'' ''U1'') ''B'' ''U1'') =
       [Section ''Q'', Context [''Asked by: <@U1>''],
        Actions [Button ''A'' '' ,U2'', Button ''B'' '' ,U1'', Button ''C'' '' ,U3''],
        Actions [controlMenu], Divider,
        Section (''*1* A'' @ guillemet @ ''<@U2>''), Section (''*1* B'' @ guillemet @ ''<@U1>''),
        Section (''*1* C'' @ guillemet @ ''<@U3>'')]"
proof -
  have u: "\<not> isLocked tallyExample" and s: "\<not> multiple tallyExample"
    by (simp_all add: tallyExample_def)
  have c: "CHR '','' \<notin> set ''U1''" by simp
  have o: "\<forall>(l, v) \<in> set (tallyButtons (message tallyExample)).
             count_list (split_js CHR '','' v) ''U1'' \<le> 1"
    using tallyExample_once by (simp add: list_all_iff)
  from vote_twice_same [OF u s c o, of "''B''"] u s c tallyExample_once tallyExample_vote_B
  show ?thesis by simp
qed

text \<open>
  The same holds click by click, when the blocks are decoded anew for each vote
  (\<^const>\<open>applyVote\<close>), for the blocks of a poll that has its divider.
\<close>

lemma applyVote_twice_same:
  assumes dec: "Poll_new blocks = Inr p" and unlocked: "\<not> isLocked p" and single: "\<not> multiple p"
    and divider: "Divider \<in> set blocks"
    and comma: "CHR '','' \<notin> set userId"
    and once: "\<forall>(l, v) \<in> set (tallyButtons blocks). count_list (split_js CHR '','' v) userId \<le> 1"
  shows "applyVote blocks buttonText userId = Inr (getBlocks (vote p buttonText userId))"
    and "applyVote (getBlocks (vote p buttonText userId)) buttonText userId
           = Inr (getBlocks (vote p buttonText userId))"
proof -
  have msg: "message p = blocks" using dec by (rule Poll_new_message)
  show "applyVote blocks buttonText userId = Inr (getBlocks (vote p buttonText userId))"
    by (simp add: applyVote_def dec)
  have "Poll_new (getBlocks (vote p buttonText userId)) = Inr (vote p buttonText userId)"
    using dec unlocked divider by (rule Poll_new_after_vote)
  moreover have "vote (vote p buttonText userId) buttonText userId = vote p buttonText userId"
    using unlocked comma once by (intro vote_again) (auto simp: msg)
  ultimately show "applyVote (getBlocks (vote p buttonText userId)) buttonText userId
      = Inr (getBlocks (vote p buttonText userId))"
    by (simp add: applyVote_def)
qed

section \<open>Options that share a label\<close>

text \<open>
  Claim C10, as the code has it. Options are found by their label alone. In an unlocked
  poll, let the label voted for, which is not \<open>__proto__\<close>, be carried by the option
  \<open>(buttonText, v)\<close> and possibly by options before it (none after it), and let the user,
  whose identifier has no comma, stand on none of them. Then one vote appends the user to
  the votes string of every option with that label; the result section is built from the
  tally object, in which the label is one key, met once in the loop over the keys; and the
  line of that key shows the voters of the last such option only,
  \<open>votersOf v @ [userId]\<close>, whatever the voters of the earlier ones.
\<close>

theorem vote_same_label:
  assumes unlocked: "\<not> isLocked p"
    and comma: "CHR '','' \<notin> set userId"
    and buttons: "tallyButtons (message p) = pre @ (buttonText, v) # post"
    and last: "buttonText \<notin> fst ` set post"
    and proto: "buttonText \<noteq> ''__proto__''"
    and fresh: "\<forall>(l, w) \<in> set (tallyButtons (message p)).
                  l = buttonText \<longrightarrow> userId \<notin> set (split_js CHR '','' w)"
  shows "tallyButtons (message (vote p buttonText userId)) =
           map (\<lambda>(l, w). (l, if l = buttonText then w @ '','' @ userId
                            else voteValue (multiple p) buttonText userId l w))
             (tallyButtons (message p))
         \<and> resultSection (message (vote p buttonText userId)) =
             (if isLocked p then [Section '':lock:''] else [])
               @ List.map_filter
                   (buildVoteTally (anonymous p) False
                      (votesFrom (tallyButtons (message (vote p buttonText userId)))))
                   (ownKeys (votesFrom (tallyButtons (message (vote p buttonText userId)))))
         \<and> count_list
               (ownKeys (votesFrom (tallyButtons (message (vote p buttonText userId)))))
               buttonText = 1
         \<and> buildVoteTally (anonymous p) False
               (votesFrom (tallyButtons (message (vote p buttonText userId)))) buttonText
             = Some (Section (lineText (anonymous p) False buttonText (votersOf v @ [userId])))"
proof -
  let ?p' = "vote p buttonText userId"
  let ?g = "\<lambda>(l, w). (l, if l = buttonText then w @ '','' @ userId
                            else voteValue (multiple p) buttonText userId l w)"
  have tb: "tallyButtons (message ?p') = map ?g (tallyButtons (message p))"
    unfolding vote_tallyButtons [OF unlocked]
    by (rule map_cong) (use fresh in \<open>auto simp: voteValue_target_new\<close>)
  have dec: "tallyButtons (message ?p') = map ?g pre @ (buttonText, v @ '','' @ userId) # map ?g post"
    unfolding tb buttons by simp
  have last': "buttonText \<notin> fst ` set (map ?g post)" using last by force
  note vl = votesFrom_last [OF dec last' proto]
  have rs: "resultSection (message ?p') =
      (if isLocked p then [Section '':lock:''] else [])
        @ List.map_filter
            (buildVoteTally (anonymous p) False (votesFrom (tallyButtons (message ?p'))))
            (ownKeys (votesFrom (tallyButtons (message ?p'))))"
    using unlocked by (simp add: vote_resultSection generateResults_lines)
  have "votersOf (v @ '','' @ userId) = votersOf v @ [userId]"
    using comma by (rule votersOf_snoc_user)
  then have line: "buildVoteTally (anonymous p) False (votesFrom (tallyButtons (message ?p'))) buttonText
      = Some (Section (lineText (anonymous p) False buttonText (votersOf v @ [userId])))"
    by (simp add: buildVoteTally_eq vl(1))
  from tb rs vl(2) line show ?thesis by blast
qed


lemma sameLabelExample_vote:
  "tallyButtons (message sameLabelExample) = [(''A'', '' ,U1'')] @ (''A'', '' '') # []
   \<and> tallyButtons (message (vote sameLabelExample ''A'' ''U2'')) =
        [(''A'', '' ,U1,U2''), (''A'', '' ,U2'')]
   \<and> resultSection (message (vote sameLabelExample ''A'' ''U2'')) =
        [Section (''*1* A'' @ guillemet @ ''<@U2>'')]
   \<and> lineText False False ''A'' (votersOf '' '' @ [''U2'']) = ''*1* A'' @ guillemet @ ''<@U2>''"
  by code_simp

theorem vote_same_label_witness:
  "\<not> isLocked sameLabelExample \<and> CHR '','' \<notin> set ''U2''
   \<and> tallyButtons (message sameLabelExample) = [(''A'', '' ,U1'')] @ (''A'', '' '') # []
   \<and> ''A'' \<noteq> ''__proto__''
   \<and> tallyButtons (message (vote sameLabelExample ''A'' ''U2'')) =
        [(''A'', '' ,U1,U2''), (''A'', '' ,U2'')]
   \<and> resultSection (message (vote sameLabelExample ''A'' ''U2'')) =
        [Section (''*1* A'' @ guillemet @ ''<@U2>'')]
   \<and> count_list
         (ownKeys (votesFrom (tallyButtons (message (vote sameLabelExample ''A'' ''U2'')))))
         ''A'' = 1
   \<and> buildVoteTally (anonymous sameLabelExample) False
         (votesFrom (tallyButtons (message (vote sameLabelExample ''A'' ''U2'')))) ''A''
       = Some (Section (''*1* A'' @ guillemet @ ''<@U2>''))"
proof -
  have u: "\<not> isLocked sameLabelExample" by (simp add: sameLabelExample_def)
  have c: "CHR '','' \<notin> set ''U2''" by simp
  have b: "tallyButtons (message sameLabelExample) = [(''A'', '' ,U1'')] @ (''A'', '' '') # []"
    using sameLabelExample_vote by blast
  have l: "''A'' \<notin> fst ` set ([] :: (string \<times> string) list)" by simp
  have n: "''A'' \<noteq> ''__proto__''" by simp
  have f: "\<forall>(l, w) \<in> set (tallyButtons (message sameLabelExample)).
             l = ''A'' \<longrightarrow> ''U2'' \<notin> set (split_js CHR '','' w)"
    unfolding b by simp
  have a: "anonymous sameLabelExample = False" by (simp add: sameLabelExample_def)
  from vote_same_label [OF u c b l n f] sameLabelExample_vote u c n a
  show ?thesis by simp
qed

text \<open>
  The claim as stated fails for the label \<open>__proto__\<close>: assigning a string to that key of
  the tally object creates no property. In the poll \<open>Q / __proto__ / __proto__\<close> a vote for
  \<open>__proto__\<close> appends the user to both options, and the result section has no line.
\<close>

theorem vote_proto_label_no_line:
  "map_sum id isLocked (Poll_new protoBlocks) = Inr False
   \<and> applyVote protoBlocks ''__proto__'' ''U1'' =
       Inr [Section ''Q'', Context [''Asked by: <@U9>''],
            Actions [Button ''__proto__'' '' ,U1'', Button ''__proto__'' '' ,U1''],
            Actions [controlMenu], Divider]
   \<and> votersOf '' ,U1'' = [''U1'']"
  by code_simp

text \<open>The poll is one that \<^verbatim>\<open>slashCreate\<close> builds.\<close>

lemma protoBlocks_created:
  "map_sum id getBlocks (slashCreate ''<@U9>'' [''Q'', ''__proto__'', ''__proto__''])
     = Inr protoBlocks"
  by code_simp

section \<open>The lunch poll\<close>

text \<open>
  Claim C5, as the code has it. \<^verbatim>\<open>createPoll("<@U1>", ["multiple", "Lunch?", "Pizza",
  "Tacos"])\<close> gives the title \<^verbatim>\<open>Lunch? *(Multiple Answers)* \<close> and the two vote buttons
  \<open>Pizza\<close> and \<open>Tacos\<close>, each with the placeholder alone and so with no voter; the poll
  decodes as a multiple-choice poll. After the votes of \<open>U2\<close> for \<open>Pizza\<close> and then for
  \<open>Tacos\<close>, \<open>U2\<close> stands on both options and the result section is the two lines
  \<^verbatim>\<open>*1* Pizza \<close>\<open>\<guillemotright>\<close>\<^verbatim>\<open> <@U2>\<close> and \<^verbatim>\<open>*1* Tacos \<close>\<open>\<guillemotright>\<close>\<^verbatim>\<open> <@U2>\<close>: the count is set in
  asterisks.
\<close>

theorem lunch_scenario:
  "map_sum id getBlocks (slashCreate ''<@U1>'' [''multiple'', ''Lunch?'', ''Pizza'', ''Tacos''])
     = Inr lunchBlocks
   \<and> map_sum id multiple (Poll_new lunchBlocks) = Inr True
   \<and> voteButtons lunchBlocks = [(''Pizza'', '' ''), (''Tacos'', '' '')]
   \<and> votersOf '' '' = []
   \<and> applyVote lunchBlocks ''Pizza'' ''U2'' =
       Inr [Section ''Lunch? *(Multiple Answers)* '', Context [''Asked by: <@U1>''],
            Actions [Button ''Pizza'' '' ,U2'', Button ''Tacos'' '' ''],
            Actions [controlMenu], Divider,
            Section (''*1* Pizza'' @ guillemet @ ''<@U2>'')]
   \<and> applyVote
         [Section ''Lunch? *(Multiple Answers)* '', Context [''Asked by: <@U1>''],
          Actions [Button ''Pizza'' '' ,U2'', Button ''Tacos'' '' ''],
          Actions [controlMenu], Divider,
          Section (''*1* Pizza'' @ guillemet @ ''<@U2>'')] ''Tacos'' ''U2'' =
       Inr [Section ''Lunch? *(Multiple Answers)* '', Context [''Asked by: <@U1>''],
            Actions [Button ''Pizza'' '' ,U2'', Button ''Tacos'' '' ,U2''],
            Actions [controlMenu], Divider,
            Section (''*1* Pizza'' @ guillemet @ ''<@U2>''),
            Section (''*1* Tacos'' @ guillemet @ ''<@U2>'')]"
  by code_simp

text \<open>
  The claim as stated fails: neither result line is, or contains, the text
  \<^verbatim>\<open>1 Pizza \<close>\<open>\<guillemotright>\<close>\<^verbatim>\<open> <@U2>\<close> or \<^verbatim>\<open>1 Tacos \<close>\<open>\<guillemotright>\<close>\<^verbatim>\<open> <@U2>\<close>.
\<close>

theorem lunch_scenario_line_text:
  "applyVote
     [Section ''Lunch? *(Multiple Answers)* '', Context [''Asked by: <@U1>''],
      Actions [Button ''Pizza'' '' ,U2'', Button ''Tacos'' '' ''],
      Actions [controlMenu], Divider,
      Section (''*1* Pizza'' @ guillemet @ ''<@U2>'')] ''Tacos'' ''U2'' =
     Inr [Section ''Lunch? *(Multiple Answers)* '', Context [''Asked by: <@U1>''],
          Actions [Button ''Pizza'' '' ,U2'', Button ''Tacos'' '' ,U2''],
          Actions [controlMenu], Divider,
          Section (''*1* Pizza'' @ guillemet @ ''<@U2>''),
          Section (''*1* Tacos'' @ guillemet @ ''<@U2>'')]
   \<and> \<not> includes_js (''*1* Pizza'' @ guillemet @ ''<@U2>'') (''1 Pizza'' @ guillemet @ ''<@U2>'')
   \<and> \<not> includes_js (''*1* Tacos'' @ guillemet @ ''<@U2>'') (''1 Pizza'' @ guillemet @ ''<@U2>'')
   \<and> \<not> includes_js (''*1* Pizza'' @ guillemet @ ''<@U2>'') (''1 Tacos'' @ guillemet @ ''<@U2>'')
   \<and> \<not> includes_js (''*1* Tacos'' @ guillemet @ ''<@U2>'') (''1 Tacos'' @ guillemet @ ''<@U2>'')"
  by code_simp

section \<open>Resetting a vote across two option groups\<close>

text \<open>
  Claim C4 at the single-choice poll \<open>Q / A / B / C / D / A\<close>. A vote for \<open>A\<close> puts the
  user on both options \<open>A\<close>, which lie in different actions blocks. The reset then removes
  the user from both: the callback's \<^verbatim>\<open>true\<close> leaves the loop over the elements of the
  first block only, and the walk goes on with the second block. Two votes are removed by
  one call in single-choice mode.
\<close>

theorem resetVote_two_groups:
  "map_sum id multiple (Poll_new twoGroupsBlocks) = Inr False
   \<and> map_sum id voteButtons (applyVote twoGroupsBlocks ''A'' ''U2'') =
       Inr [(''A'', '' ,U2''), (''B'', '' ''), (''C'', '' ''), (''D'', '' ''), (''A'', '' ,U2'')]
   \<and> map_sum id voteButtons
         (case applyVote twoGroupsBlocks ''A'' ''U2'' of Inl e \<Rightarrow> Inl e
          | Inr blocks \<Rightarrow> applyReset blocks ''U2'') =
       Inr [(''A'', '' ''), (''B'', '' ''), (''C'', '' ''), (''D'', '' ''), (''A'', '' '')]"
  by code_simp

text \<open>The poll is one that \<^verbatim>\<open>slashCreate\<close> builds.\<close>

lemma twoGroupsBlocks_created:
  "map_sum id getBlocks (slashCreate ''<@U1>'' [''Q'', ''A'', ''B'', ''C'', ''D'', ''A''])
     = Inr twoGroupsBlocks"
  by code_simp

text \<open>
  Within one actions block the scan does stop at the first removal: with both options \<open>A\<close>
  in the same block, the reset takes the user off the first and leaves the second.
\<close>

lemma resetVote_same_group:
  "map_sum id multiple (Poll_new oneGroupBlocks) = Inr False
   \<and> map_sum id voteButtons (applyReset oneGroupBlocks ''U2'') =
       Inr [(''A'', '' ''), (''A'', '' ,U2'')]"
  by code_simp

section \<open>Anonymous polls\<close>

text \<open>
  Claim C6, as the code has it. In an anonymous poll every line of the result section
  generated without revealing identities is the lock marker or
  \<^verbatim>\<open>*<count>* <label> \<close>\<open>\<guillemotright>\<close>\<^verbatim>\<open> ~HIDDEN~\<close> for an option with voters and the number of its voters:
  the names are replaced by the redaction token, and nothing of a line depends on who
  voted (an identifier occurs in it only where the count, the label or the token contain
  it). Generated with the identities revealed, the result section has, for every option
  that is the last of its label before the divider (the label not \<open>__proto__\<close>), the line
  of that option, which includes the identifier of each of its voters, written \<^verbatim>\<open><@id>\<close>.
\<close>

theorem anonymous_results:
  assumes "anonymous p"
  shows "(\<forall>b \<in> set (generateResults p False).
            b = Section '':lock:''
            \<or> (\<exists>l v. (l, v) \<in> set (tallyButtons (message p)) \<and> votersOf v \<noteq> []
                  \<and> b = Section (''*'' @ decimal (length (votersOf v)) @ ''* '' @ l @ guillemet
                                  @ ''~HIDDEN~'')))
       \<and> (\<forall>pre l v post u.
             tallyButtons (message p) = pre @ (l, v) # post \<and> l \<notin> fst ` set post
               \<and> l \<noteq> ''__proto__'' \<and> u \<in> set (votersOf v)
             \<longrightarrow> Section (lineText True True l (votersOf v)) \<in> set (generateResults p True)
                 \<and> includes_js (lineText True True l (votersOf v)) (mention u)
                 \<and> includes_js (lineText True True l (votersOf v)) u)"
proof (intro conjI ballI allI impI)
  let ?votes = "votesFrom (tallyButtons (message p))"
  fix b assume "b \<in> set (generateResults p False)"
  then consider "b = Section '':lock:''"
    | k where "k \<in> set (ownKeys ?votes)" "buildVoteTally True False ?votes k = Some b"
    using assms by (auto simp: generateResults_lines set_map_filter split: if_splits)
  then show "b = Section '':lock:''
      \<or> (\<exists>l v. (l, v) \<in> set (tallyButtons (message p)) \<and> votersOf v \<noteq> []
            \<and> b = Section (''*'' @ decimal (length (votersOf v)) @ ''* '' @ l @ guillemet
                            @ ''~HIDDEN~''))"
  proof cases
    case 1
    then show ?thesis by simp
  next
    case 2
    then obtain v where v: "map_of ?votes k = Some v" "votersOf v \<noteq> []"
      "b = Section (lineText True False k (votersOf v))"
      by (auto simp: buildVoteTally_eq split: option.splits if_splits)
    from v(1) have "(k, v) \<in> set ?votes" by (rule map_of_SomeD)
    with set_votesFrom have "(k, v) \<in> set (tallyButtons (message p))" by blast
    with v show ?thesis by (auto simp: lineText_def)
  qed
next
  fix pre l v post u
  assume a: "tallyButtons (message p) = pre @ (l, v) # post \<and> l \<notin> fst ` set post
               \<and> l \<noteq> ''__proto__'' \<and> u \<in> set (votersOf v)"
  let ?votes = "votesFrom (tallyButtons (message p))"
  from a have dec: "tallyButtons (message p) = pre @ (l, v) # post"
    and last: "l \<notin> fst ` set post" and proto: "l \<noteq> ''__proto__''" by simp_all
  note vl = votesFrom_last [OF dec last proto]
  from vl(2) have "l \<in> set (ownKeys ?votes)" by (metis count_list_0_iff zero_neq_one)
  moreover have "buildVoteTally True True ?votes l = Some (Section (lineText True True l (votersOf v)))"
    using a vl(1) by (auto simp: buildVoteTally_eq)
  ultimately show "Section (lineText True True l (votersOf v)) \<in> set (generateResults p True)"
    using assms by (auto simp: generateResults_lines set_map_filter)
  from a show "includes_js (lineText True True l (votersOf v)) (mention u)"
    and "includes_js (lineText True True l (votersOf v)) u"
    by (simp_all add: lineText_reveals)
qed


lemma anonExample_values:
  "tallyButtons (message anonExample) = [] @ (''<@U2>'', '' ,U2'') # [(''<@U3>'', '' '')]
   \<and> votersOf '' ,U2'' = [''U2'']
   \<and> generateResults anonExample False = [Section (''*1* <@U2>'' @ guillemet @ ''~HIDDEN~'')]
   \<and> lineText True True ''<@U2>'' [''U2''] = ''*1* <@U2>'' @ guillemet @ ''<@U2>''"
  by code_simp

theorem anonymous_results_witness:
  "anonymous anonExample
   \<and> tallyButtons (message anonExample) = [] @ (''<@U2>'', '' ,U2'') # [(''<@U3>'', '' '')]
   \<and> generateResults anonExample False = [Section (''*1* <@U2>'' @ guillemet @ ''~HIDDEN~'')]
   \<and> Section (''*1* <@U2>'' @ guillemet @ ''<@U2>'') \<in> set (generateResults anonExample True)
   \<and> includes_js (''*1* <@U2>'' @ guillemet @ ''<@U2>'') (mention ''U2'')"
proof -
  have a: "anonymous anonExample" by (simp add: anonExample_def)
  have "tallyButtons (message anonExample) = [] @ (''<@U2>'', '' ,U2'') # [(''<@U3>'', '' '')]
      \<and> ''<@U2>'' \<notin> fst ` set [(''<@U3>'', '' '')] \<and> ''<@U2>'' \<noteq> ''__proto__''
      \<and> ''U2'' \<in> set (votersOf '' ,U2'')"
    using anonExample_values by simp
  with anonymous_results [OF a] have
    "Section (lineText True True ''<@U2>'' (votersOf '' ,U2'')) \<in> set (generateResults anonExample True)
     \<and> includes_js (lineText True True ''<@U2>'' (votersOf '' ,U2'')) (mention ''U2'')"
    by blast
  with a anonExample_values show ?thesis by simp
qed

text \<open>
  The claim as stated fails: \<open>U2\<close> has voted, in an anonymous poll, for the option whose
  label mentions \<open>U2\<close>, and the result line generated without revealing identities
  contains the identifier \<open>U2\<close>.
\<close>

theorem anonymous_label_shows_identifier:
  "Poll_new anonBlocks = Inr anonExample
   \<and> anonymous anonExample
   \<and> tallyButtons (message anonExample) = [(''<@U2>'', '' ,U2''), (''<@U3>'', '' '')]
   \<and> votersOf '' ,U2'' = [''U2'']
   \<and> generateResults anonExample False = [Section (''*1* <@U2>'' @ guillemet @ ''~HIDDEN~'')]
   \<and> includes_js (''*1* <@U2>'' @ guillemet @ ''~HIDDEN~'') ''U2''"
  by code_simp

section \<open>Changing a vote in a single-choice poll\<close>

text \<open>
  Claim C2, as the code has it. Take an unlocked single-choice poll of the data model: the
  options before the divider carry pairwise distinct labels, none of them \<open>__proto__\<close>;
  the identifier of the user has no comma, is not the placeholder of a votes string and
  occurs at most once in each. Let the user stand on option \<open>A\<close> and not on option \<open>B\<close>.
  A vote for the label of \<open>B\<close> removes the user from the voters of \<open>A\<close> and appends the
  user to the voters of \<open>B\<close>; afterwards the user stands on exactly one option. The result
  section is one line for every option with a voter; the line of \<open>B\<close> is among them, and
  it mentions the user unless the poll is anonymous (then the names are \<^verbatim>\<open>~HIDDEN~\<close>);
  when the user was the only voter of \<open>A\<close>, option \<open>A\<close> is not among the options with a
  line.
\<close>

theorem vote_moves_vote:
  assumes unlocked: "\<not> isLocked p" and single: "\<not> multiple p"
    and comma: "CHR '','' \<notin> set userId"
    and labels: "distinct (map fst (tallyButtons (message p)))"
    and proto: "''__proto__'' \<notin> fst ` set (tallyButtons (message p))"
    and wf: "\<forall>(l, v) \<in> set (tallyButtons (message p)).
               hd (split_js CHR '','' v) \<noteq> userId \<and> count_list (split_js CHR '','' v) userId \<le> 1"
    and A: "(labelA, vA) \<in> set (tallyButtons (message p))"
    and B: "(labelB, vB) \<in> set (tallyButtons (message p))"
    and AB: "labelA \<noteq> labelB"
    and onA: "userId \<in> set (votersOf vA)"
    and notB: "userId \<notin> set (votersOf vB)"
  shows "tallyButtons (message (vote p labelB userId)) =
           map (\<lambda>(l, v). (l, voteValue False labelB userId l v)) (tallyButtons (message p))
         \<and> votersOf (voteValue False labelB userId labelA vA) = remove1 userId (votersOf vA)
         \<and> userId \<notin> set (votersOf (voteValue False labelB userId labelA vA))
         \<and> votersOf (voteValue False labelB userId labelB vB) = votersOf vB @ [userId]
         \<and> length (filter (\<lambda>(l, v). userId \<in> set (votersOf v))
                     (tallyButtons (message (vote p labelB userId)))) = 1
         \<and> mset (resultSection (message (vote p labelB userId))) =
              optionLines (anonymous p) False (tallyButtons (message (vote p labelB userId)))
         \<and> Section (lineText (anonymous p) False labelB (votersOf vB @ [userId]))
              \<in> set (resultSection (message (vote p labelB userId)))
         \<and> (anonymous p \<or> includes_js (lineText (anonymous p) False labelB (votersOf vB @ [userId]))
                               (mention userId))
         \<and> (votersOf vA \<noteq> [userId]
              \<or> (labelA, voteValue False labelB userId labelA vA)
                   \<notin> set (filter (\<lambda>(l, v). votersOf v \<noteq> [])
                            (tallyButtons (message (vote p labelB userId)))))"
proof -
  let ?bl = "tallyButtons (message p)"
  let ?p' = "vote p labelB userId"
  let ?g = "\<lambda>(l, v). (l, voteValue False labelB userId l v)"
  have tb: "tallyButtons (message ?p') = map ?g ?bl"
    using unlocked single by (simp add: vote_tallyButtons)
  have wfA: "hd (split_js CHR '','' vA) \<noteq> userId" "count_list (split_js CHR '','' vA) userId \<le> 1"
    and wfB: "hd (split_js CHR '','' vB) \<noteq> userId"
    using wf A B by auto
  note a = voteValue_other_voters [OF AB wfA]
  note b = voteValue_target_voters [OF comma wfB notB]
  have bv: "votersOf (voteValue False labelB userId labelB vB) = votersOf vB @ [userId]"
    unfolding b(1) by (rule b(2))
  have fstg: "map fst (map ?g ?bl) = map fst ?bl" by (simp add: comp_def case_prod_beta)
  have dist': "distinct (map fst (tallyButtons (message ?p')))" unfolding tb fstg by (rule labels)
  have proto': "''__proto__'' \<notin> fst ` set (tallyButtons (message ?p'))"
    using proto unfolding tb by force
  have B': "(labelB, voteValue False labelB userId labelB vB) \<in> set (tallyButtons (message ?p'))"
    unfolding tb using B by force
  have A': "(labelA, voteValue False labelB userId labelA vA) \<in> set (tallyButtons (message ?p'))"
    unfolding tb using A by force
  have only: "\<forall>(l, w) \<in> set (tallyButtons (message ?p')). userId \<in> set (votersOf w) \<longleftrightarrow> l = labelB"
  proof (clarify, rule iffI)
    fix l w assume lw: "(l, w) \<in> set (tallyButtons (message ?p'))"
    then obtain v where v: "(l, v) \<in> set ?bl" and w: "w = voteValue False labelB userId l v"
      unfolding tb by auto
    from v wf have wfv: "hd (split_js CHR '','' v) \<noteq> userId"
      "count_list (split_js CHR '','' v) userId \<le> 1" by auto
    show "l = labelB" if "userId \<in> set (votersOf w)"
      using that voteValue_other_voters(2) [OF _ wfv, of l labelB] unfolding w by blast
    show "userId \<in> set (votersOf w)" if "l = labelB"
    proof -
      from that v B labels have "v = vB" by (metis eq_key_imp_eq_value)
      with that w bv show ?thesis by simp
    qed
  qed
  have one: "length (filter (\<lambda>(l, v). userId \<in> set (votersOf v)) (tallyButtons (message ?p'))) = 1"
    using dist' B' only by (rule filter_unique_key)
  have res: "mset (resultSection (message ?p')) =
      optionLines (anonymous p) False (tallyButtons (message ?p'))"
    using unlocked generateResults_distinct_labels [OF dist' proto', of False]
    by (simp add: vote_resultSection)
  have "Section (lineText (anonymous p) False labelB
      (votersOf (voteValue False labelB userId labelB vB)))
      \<in># optionLines (anonymous p) False (tallyButtons (message ?p'))"
    using B' by (rule in_optionLines) (simp add: bv)
  then have line: "Section (lineText (anonymous p) False labelB (votersOf vB @ [userId]))
      \<in> set (resultSection (message ?p'))"
    unfolding bv res [symmetric] by simp
  have shown: "anonymous p
      \<or> includes_js (lineText (anonymous p) False labelB (votersOf vB @ [userId])) (mention userId)"
    by (cases "anonymous p") (simp_all add: lineText_reveals)
  have noA: "votersOf vA \<noteq> [userId]
      \<or> (labelA, voteValue False labelB userId labelA vA)
           \<notin> set (filter (\<lambda>(l, v). votersOf v \<noteq> []) (tallyButtons (message ?p')))"
    using a(1) by auto
  from tb a bv one res line shown noA show ?thesis by blast
qed


lemma tallyExample_move:
  "tallyButtons (message tallyExample) = [(''A'', '' ,U1,U2''), (''B'', '' ''), (''C'', '' ,U3'')]
   \<and> list_all (\<lambda>(l, v). hd (split_js CHR '','' v) \<noteq> ''U3''
                  \<and> count_list (split_js CHR '','' v) ''U3'' \<le> 1)
         (tallyButtons (message tallyExample))
   \<and> votersOf '' ,U3'' = [''U3''] \<and> votersOf '' '' = []
   \<and> tallyButtons (message (vote tallyExample ''B'' ''U3'')) =
        [(''A'', '' ,U1,U2''), (''B'', '' ,U3''), (''C'', '' '')]
   \<and> resultSection (message (vote tallyExample ''B'' ''U3'')) =
        [Section (''*2* A'' @ guillemet @ ''<@U1>,<@U2>''),
         Section (''*1* B'' @ guillemet @ ''<@U3>'')]
   \<and> lineText False False ''B'' [''U3''] = ''*1* B'' @ guillemet @ ''<@U3>''"
  by code_simp

theorem vote_moves_vote_witness:
  "\<not> isLocked tallyExample \<and> \<not> multiple tallyExample \<and> CHR '','' \<notin> set ''U3''
   \<and> tallyButtons (message tallyExample) = [(''A'', '' ,U1,U2''), (''B'', '' ''), (''C'', '' ,U3'')]
   \<and> votersOf '' ,U3'' = [''U3''] \<and> votersOf '' '' = []
   \<and> tallyButtons (message (vote tallyExample ''B'' ''U3'')) =
        [(''A'', '' ,U1,U2''), (''B'', '' ,U3''), (''C'', '' '')]
   \<and> length (filter (\<lambda>(l, v). ''U3'' \<in> set (votersOf v))
               (tallyButtons (message (vote tallyExample ''B'' ''U3'')))) = 1
   \<and> resultSection (message (vote tallyExample ''B'' ''U3'')) =
        [Section (''*2* A'' @ guillemet @ ''<@U1>,<@U2>''),
         Section (''*1* B'' @ guillemet @ ''<@U3>'')]
   \<and> includes_js (''*1* B'' @ guillemet @ ''<@U3>'') (mention ''U3'')"
proof -
  note ex = tallyExample_move
  have u: "\<not> isLocked tallyExample" and s: "\<not> multiple tallyExample"
    and n: "\<not> anonymous tallyExample"
    by (simp_all add: tallyExample_def)
  have c: "CHR '','' \<notin> set ''U3''" by simp
  have tb: "tallyButtons (message tallyExample) =
      [(''A'', '' ,U1,U2''), (''B'', '' ''), (''C'', '' ,U3'')]"
    using ex by blast
  have d: "distinct (map fst (tallyButtons (message tallyExample)))"
    and pr: "''__proto__'' \<notin> fst ` set (tallyButtons (message tallyExample))"
    and A: "(''C'', '' ,U3'') \<in> set (tallyButtons (message tallyExample))"
    and B: "(''B'', '' '') \<in> set (tallyButtons (message tallyExample))"
    unfolding tb by simp_all
  have wf: "\<forall>(l, v) \<in> set (tallyButtons (message tallyExample)).
      hd (split_js CHR '','' v) \<noteq> ''U3'' \<and> count_list (split_js CHR '','' v) ''U3'' \<le> 1"
    using ex by (simp add: list_all_iff)
  have AB: "''C'' \<noteq> ''B''" by simp
  have onA: "''U3'' \<in> set (votersOf '' ,U3'')" and notB: "''U3'' \<notin> set (votersOf '' '')"
    using ex by simp_all
  note T = vote_moves_vote [OF u s c d pr wf A B AB onA notB]
  have one: "length (filter (\<lambda>(l, v). ''U3'' \<in> set (votersOf v))
      (tallyButtons (message (vote tallyExample ''B'' ''U3'')))) = 1"
    using T by blast
  have "anonymous tallyExample
      \<or> includes_js (lineText (anonymous tallyExample) False ''B'' (votersOf '' '' @ [''U3'']))
           (mention ''U3'')"
    using T by blast
  with n have "includes_js (lineText False False ''B'' (votersOf '' '' @ [''U3''])) (mention ''U3'')"
    by simp
  moreover have "votersOf '' '' @ [''U3''] = [''U3'']" using ex by simp
  moreover have "lineText False False ''B'' [''U3''] = ''*1* B'' @ guillemet @ ''<@U3>''"
    using ex by blast
  ultimately have inc: "includes_js (''*1* B'' @ guillemet @ ''<@U3>'') (mention ''U3'')"
    by (simp only:)
  from ex have v1: "votersOf '' ,U3'' = [''U3'']" and v2: "votersOf '' '' = []"
    and tb': "tallyButtons (message (vote tallyExample ''B'' ''U3'')) =
        [(''A'', '' ,U1,U2''), (''B'', '' ,U3''), (''C'', '' '')]"
    and rs: "resultSection (message (vote tallyExample ''B'' ''U3'')) =
        [Section (''*2* A'' @ guillemet @ ''<@U1>,<@U2>''),
         Section (''*1* B'' @ guillemet @ ''<@U3>'')]"
    by blast+
  show ?thesis
    by (intro conjI) (fact u s c tb v1 v2 tb' one rs inc)+
qed

text \<open>
  The claim as stated fails for an anonymous poll: after the vote of \<open>U1\<close> for \<open>B\<close> the
  result line of \<open>B\<close> does not mention \<open>U1\<close>.
\<close>

theorem vote_moves_vote_anonymous:
  "map_sum id multiple (Poll_new anonMoveBlocks) = Inr False
   \<and> map_sum id isLocked (Poll_new anonMoveBlocks) = Inr False
   \<and> applyVote anonMoveBlocks ''B'' ''U1'' =
       Inr [Section ''Q *(Anonymous)* '', Context [''Asked by: <@U9>''],
            Actions [Button ''A'' '' '', Button ''B'' '' ,U1''],
            Actions [controlMenu], Divider,
            Section (''*1* B'' @ guillemet @ ''~HIDDEN~'')]
   \<and> \<not> includes_js (''*1* B'' @ guillemet @ ''~HIDDEN~'') ''U1''"
  by code_simp

end
